theory Spec2Isabelle
  imports Complex_Main
begin

section \<open>FFFrameReader: the stream cursor of a random-access video frame reader\<close>

text \<open>
  A shallow embedding of \<^verbatim>\<open>src/source/FFFRStream.cpp\<close> and
  \<^verbatim>\<open>src/source/FFFRFrame.cpp\<close>. A \<^verbatim>\<open>Stream\<close> object is a record that is passed
  in and returned updated. The demuxer and the decoder (libavformat, libavcodec) are external:
  the record holds what their next calls will answer, so every function of the source is a
  total, executable function of the record.
\<close>

subsection \<open>64-bit integers and the rescale primitive\<close>

text \<open>
  The limits of \<^verbatim>\<open>int64_t\<close> and two constants of libavutil: the value that stands for
  "no time stamp" and the number of microsecond ticks in a second.
\<close>

definition INT64_MAX :: int where
  "INT64_MAX = 9223372036854775807"

definition INT64_MIN :: int where
  "INT64_MIN = - 9223372036854775808"

definition AV_NOPTS_VALUE :: int where
  "AV_NOPTS_VALUE = - 9223372036854775808"

definition AV_TIME_BASE :: int where
  "AV_TIME_BASE = 1000000"

text \<open>
  \<^verbatim>\<open>int64_t\<close> values are integers; the result of \<^verbatim>\<open>+\<close>, \<^verbatim>\<open>-\<close> and \<^verbatim>\<open>*\<close> on them is
  reduced to the two's complement range, which is what the compiled code computes when a
  result leaves the range.
\<close>

definition wrap64 :: "int \<Rightarrow> int" where
  "wrap64 x = (x + 9223372036854775808) mod 18446744073709551616 - 9223372036854775808"

record AVRational =
  num :: int
  den :: int

definition av_make_q :: "int \<Rightarrow> int \<Rightarrow> AVRational" where
  "av_make_q n d = \<lparr>num = n, den = d\<rparr>"

definition av_inv_q :: "AVRational \<Rightarrow> AVRational" where
  "av_inv_q q = \<lparr>num = den q, den = num q\<rparr>"

text \<open>
  Modelled from the spec: \<^verbatim>\<open>av_rescale_q\<close> is the external rational rescale primitive
  (libavutil), not a function of this repository. It computes \<open>a * bq / cq\<close> rounded to the
  nearest integer, halfway cases away from zero; a non-positive divisor, a negative
  multiplier or a result beyond \<^verbatim>\<open>int64_t\<close> gives \<^verbatim>\<open>INT64_MIN\<close>. A negative \<open>a\<close> is
  rescaled as its absolute value and negated.
\<close>

definition av_rescale_rnd :: "int \<Rightarrow> int \<Rightarrow> int \<Rightarrow> int" where
  "av_rescale_rnd a b c =
     (if c \<le> 0 \<or> b < 0 then INT64_MIN
      else
        let a' = (if a < 0 then - max a (- INT64_MAX) else a);
            q = (a' * b + c div 2) div c;
            r = (if INT64_MAX < q then INT64_MIN else q)
        in if a < 0 then wrap64 (- r) else r)"

definition av_rescale_q :: "int \<Rightarrow> AVRational \<Rightarrow> AVRational \<Rightarrow> int" where
  "av_rescale_q a bq cq = av_rescale_rnd a (num bq * den cq) (num cq * den bq)"

subsection \<open>Frames, packets and the Stream object\<close>

text \<open>
  A decoded native frame (\<^verbatim>\<open>AVFrame\<close>), and the \<^verbatim>\<open>Frame\<close> class of FFFRFrame.cpp that
  owns one; the handle of a default-constructed \<^verbatim>\<open>Frame\<close> is the null pointer.
\<close>

record AVFrame =
  width :: int
  height :: int
  best_effort_timestamp :: int

record Frame =
  m_frame :: "AVFrame option"
  m_timeStamp :: int
  m_frameNum :: int

record AVPacket =
  stream_index :: int
  pts :: int
  dts :: int

text \<open>The negative return codes the source tells apart.\<close>

datatype averror = AVERROR_EOF | AVERROR_EAGAIN | AVERROR_OTHER

text \<open>
  What the decoder does with a packet: \<^verbatim>\<open>avcodec_send_packet\<close> fails, or it succeeds and the
  following calls of \<^verbatim>\<open>avcodec_receive_frame\<close> deliver the listed frames and then fail
  with the given code.
\<close>

datatype decoder_reply = Send_error | Send_ok "AVFrame list" averror

text \<open>
  What a call of \<^verbatim>\<open>av_read_frame\<close> returns: a negative code, or a packet (with the
  decoder's reply to it, should it be sent). Past the end of the list every call returns
  \<^verbatim>\<open>AVERROR_EOF\<close>.
\<close>

datatype read_result = Read_error averror | Read_packet AVPacket decoder_reply

text \<open>
  The demuxer seeks of the source: \<^verbatim>\<open>avformat_seek_file(ctx, index, min_ts, ts, max_ts, flags)\<close>
  and \<^verbatim>\<open>av_seek_frame(ctx, index, ts, flags)\<close>.
\<close>

datatype seek_request = Seek_file int int int int | Seek_frame int int

datatype ext_call = Flush_buffers | Demux_seek seek_request

definition AVSEEK_FLAG_BACKWARD :: int where
  "AVSEEK_FLAG_BACKWARD = 1"

definition AVSEEK_FLAG_FRAME :: int where
  "AVSEEK_FLAG_FRAME = 8"

text \<open>
  The \<^verbatim>\<open>Stream\<close> object with what it owns. First the fields of the format context and of
  the selected substream, then those of the codec context, then the external world (the
  results of the coming \<^verbatim>\<open>av_read_frame\<close> and \<^verbatim>\<open>av_frame_alloc\<close> calls, the demuxer's answer
  to a seek: \<open>None\<close> when it rejects it, otherwise the packets that follow the new position;
  the calls made so far and the lines written by \<^verbatim>\<open>av_log\<close>), then the members of the class.
  A log line is recorded by the fixed text of its message, without the formatted arguments.
  \<open>default_Frame\<close> is the value of \<^verbatim>\<open>Frame()\<close>, whose constructor is declared in FFFRFrame.h;
  it is a parameter of the model.
\<close>

record stream =
  time_base :: AVRational
  r_frame_rate :: AVRational
  display_aspect_ratio :: AVRational
  codecpar_width :: int
  codecpar_height :: int
  format_duration :: int
  start_time :: int
  first_dts :: int
  nb_frames :: int
  stream_duration :: int
  codec_cap_delay :: bool
  codec_delay :: int
  has_b_frames :: int
  pending :: "read_result list"
  demux_seek :: "seek_request \<Rightarrow> read_result list option"
  alloc_results :: "bool list"
  ext_calls :: "ext_call list"
  av_log :: "string list"
  default_Frame :: Frame
  m_bufferLength :: nat
  m_index :: int
  m_bufferPing :: "Frame list"
  m_bufferPong :: "Frame list"
  m_bufferPingHead :: nat
  m_startTimeStamp :: int
  m_totalFrames :: int
  m_totalDuration :: int
  m_frameSeekSupported :: bool

definition av_log_error :: "string \<Rightarrow> stream \<Rightarrow> stream" where
  "av_log_error msg s = s\<lparr>av_log := av_log s @ [msg]\<rparr>"

subsection \<open>TimeMap: the unit conversions\<close>

definition timeToTimeStamp :: "stream \<Rightarrow> int \<Rightarrow> int" where
  "timeToTimeStamp s time =
     wrap64 (m_startTimeStamp s + av_rescale_q time (av_make_q 1 AV_TIME_BASE) (time_base s))"

definition timeStampToTime :: "stream \<Rightarrow> int \<Rightarrow> int" where
  "timeStampToTime s timeStamp =
     av_rescale_q (wrap64 (timeStamp - m_startTimeStamp s)) (time_base s) (av_make_q 1 AV_TIME_BASE)"

definition frameToTimeStamp :: "stream \<Rightarrow> int \<Rightarrow> int" where
  "frameToTimeStamp s frame =
     wrap64 (m_startTimeStamp s + av_rescale_q frame (av_inv_q (r_frame_rate s)) (time_base s))"

definition timeStampToFrame :: "stream \<Rightarrow> int \<Rightarrow> int" where
  "timeStampToFrame s timeStamp =
     av_rescale_q (wrap64 (timeStamp - m_startTimeStamp s)) (r_frame_rate s) (av_inv_q (time_base s))"

definition frameToTime :: "stream \<Rightarrow> int \<Rightarrow> int" where
  "frameToTime s frame = av_rescale_q frame (av_make_q AV_TIME_BASE 1) (r_frame_rate s)"

definition timeToFrame :: "stream \<Rightarrow> int \<Rightarrow> int" where
  "timeToFrame s time = av_rescale_q time (av_make_q 1 AV_TIME_BASE) (av_inv_q (r_frame_rate s))"

definition getFrameTime :: "stream \<Rightarrow> int" where
  "getFrameTime s = frameToTime s 1"

subsection \<open>DecodePump: \<^verbatim>\<open>decodeNextBlock\<close>\<close>

definition av_frame_alloc :: "stream \<Rightarrow> bool \<times> stream" where
  "av_frame_alloc s =
     (case alloc_results s of
        [] \<Rightarrow> (True, s)
      | r # rs \<Rightarrow> (r, s\<lparr>alloc_results := rs\<rparr>))"

text \<open>
  The inner \<^verbatim>\<open>while (true)\<close> of \<^verbatim>\<open>decodeNextBlock\<close>, which drains the decoder. It ends the
  function with a return value or breaks to the packet loop. The flag says whether the local
  handle \<^verbatim>\<open>frame\<close> is null: it is allocated when null, and moved into the \<^verbatim>\<open>Frame\<close> (so null
  again) after each decoded frame.
\<close>

datatype drain = Drain_return bool | Drain_break

fun receive_frames :: "AVFrame list \<Rightarrow> averror \<Rightarrow> bool \<Rightarrow> stream \<Rightarrow> drain \<times> bool \<times> stream" where
  "receive_frames [] e frame_null s =
     (let (ok, s1) = (if frame_null then av_frame_alloc s else (True, s)) in
      if \<not> ok then (Drain_return False, True, av_log_error ''Failed to allocate new frame'' s1)
      else if e = AVERROR_EAGAIN \<or> e = AVERROR_EOF then
        (if m_bufferLength s1 \<le> length (m_bufferPong s1) then (Drain_return True, False, s1)
         else (Drain_break, False, s1))
      else (Drain_return False, False, av_log_error ''Failed to receive decoded frame'' s1))"
| "receive_frames (f # fs) e frame_null s =
     (let (ok, s1) = (if frame_null then av_frame_alloc s else (True, s)) in
      if \<not> ok then (Drain_return False, True, av_log_error ''Failed to allocate new frame'' s1)
      else
        let timeStamp = timeStampToTime s1 (best_effort_timestamp f);
            frameNum = timeStampToFrame s1 (best_effort_timestamp f);
            s2 = s1\<lparr>m_bufferPong := m_bufferPong s1 @
                   [\<lparr>m_frame = Some f, m_timeStamp = timeStamp, m_frameNum = frameNum\<rparr>]\<rparr>
        in receive_frames fs e True s2)"

text \<open>The outer \<^verbatim>\<open>while (true)\<close>: one \<^verbatim>\<open>av_read_frame\<close> per round.\<close>

fun read_packets :: "read_result list \<Rightarrow> bool \<Rightarrow> stream \<Rightarrow> bool \<times> stream" where
  "read_packets [] frame_null s = (True, s\<lparr>pending := []\<rparr>)"
| "read_packets (Read_error e # evs) frame_null s =
     (if e \<noteq> AVERROR_EOF
      then (False, av_log_error ''Failed to retrieve new frame'' (s\<lparr>pending := evs\<rparr>))
      else (True, s\<lparr>pending := evs\<rparr>))"
| "read_packets (Read_packet packet reply # evs) frame_null s =
     (if m_index s = stream_index packet then
        (case reply of
           Send_error \<Rightarrow>
             (False, av_log_error ''Failed to send packet to decoder'' (s\<lparr>pending := evs\<rparr>))
         | Send_ok fs e \<Rightarrow>
             (case receive_frames fs e frame_null s of
                (Drain_return b, frame_null', s1) \<Rightarrow> (b, s1\<lparr>pending := evs\<rparr>)
              | (Drain_break, frame_null', s1) \<Rightarrow> read_packets evs frame_null' s1))
      else read_packets evs frame_null s)"

definition decodeNextBlock :: "stream \<Rightarrow> bool \<times> stream" where
  "decodeNextBlock s = read_packets (pending s) True (s\<lparr>m_bufferPong := []\<rparr>)"

subsection \<open>RingCursor: peek, pop, get\<close>

text \<open>
  \<^verbatim>\<open>popFrame\<close> overwrites the slot with a fresh default \<^verbatim>\<open>Frame\<close>, which drops the buffer's
  reference to the frame that was there.
\<close>

definition popFrame :: "stream \<Rightarrow> stream" where
  "popFrame s =
     (if length (m_bufferPing s) \<le> m_bufferPingHead s
      then av_log_error ''No more frames to pop'' s
      else s\<lparr>m_bufferPing := (m_bufferPing s)[m_bufferPingHead s := default_Frame s],
             m_bufferPingHead := m_bufferPingHead s + 1\<rparr>)"

text \<open>
  Invariant I1 of the data model: the head is an index into \<^verbatim>\<open>m_bufferPing\<close> or its size.
\<close>

definition I1 :: "stream \<Rightarrow> bool" where
  "I1 s \<longleftrightarrow> m_bufferPingHead s \<le> length (m_bufferPing s)"

text \<open>
  The result \<^verbatim>\<open>variant<bool, shared_ptr<Frame>>\<close> is a sum. With the head beyond the buffer
  the source reads the vector out of range, which is undefined; the constructor and the
  operations keep I1 (lemmas \<open>I1_Stream\<close> and \<open>I1_invariant\<close> below), so that state is never
  reached, and the model gives it the non-frame result.
\<close>

definition peekNextFrame :: "stream \<Rightarrow> (bool + Frame) \<times> stream" where
  "peekNextFrame s =
     (if m_bufferPingHead s = length (m_bufferPing s) then
        (let (ok, s1) = decodeNextBlock s in
         if \<not> ok then (Inl False, s1)
         else
           let s2 = s1\<lparr>m_bufferPing := m_bufferPong s1, m_bufferPong := [],
                       m_bufferPingHead := 0\<rparr>
           in if length (m_bufferPing s2) = 0
              then (Inl False,
                    av_log_error ''Cannot get a new frame, End of file has been reached.'' s2)
              else (Inr (m_bufferPing s2 ! m_bufferPingHead s2), s2))
      else if m_bufferPingHead s < length (m_bufferPing s)
      then (Inr (m_bufferPing s ! m_bufferPingHead s), s)
      else (Inl False, s))"

definition getNextFrame :: "stream \<Rightarrow> (bool + Frame) \<times> stream" where
  "getNextFrame s =
     (let (ret, s1) = peekNextFrame s in
      case ret of
        Inl b \<Rightarrow> (Inl False, s1)
      | Inr f \<Rightarrow> (ret, popFrame s1))"

text \<open>
  \<^verbatim>\<open>getNextFrameSequence\<close>: the inner loop \<^verbatim>\<open>for (j = start; j < i; j++)\<close> runs \<open>i - start\<close>
  times, the outer loop carries \<^verbatim>\<open>start\<close> and \<^verbatim>\<open>ret\<close>.
\<close>

fun skip_frames :: "nat \<Rightarrow> stream \<Rightarrow> bool \<times> stream" where
  "skip_frames 0 s = (True, s)"
| "skip_frames (Suc n) s =
     (case peekNextFrame s of
        (Inl b, s1) \<Rightarrow> (False, s1)
      | (Inr f, s1) \<Rightarrow> skip_frames n (popFrame s1))"

fun sequence_loop :: "int list \<Rightarrow> int \<Rightarrow> Frame list \<Rightarrow> stream \<Rightarrow> (bool + Frame list) \<times> stream" where
  "sequence_loop [] start ret s = (Inr ret, s)"
| "sequence_loop (i # frameSequence) start ret s =
     (if i < start then
        (Inl False,
         av_log_error ''Invalid sequence list passed to getNextFrameSequence(). Sequences in the list must be in ascending order.'' s)
      else
        (case skip_frames (nat (i - start)) s of
           (False, s1) \<Rightarrow> (Inl False, s1)
         | (True, s1) \<Rightarrow>
             (case getNextFrame s1 of
                (Inl b, s2) \<Rightarrow> (Inl False, s2)
              | (Inr frame, s2) \<Rightarrow>
                  sequence_loop frameSequence (wrap64 (i + 1)) (ret @ [frame]) s2)))"

definition getNextFrameSequence :: "int list \<Rightarrow> stream \<Rightarrow> (bool + Frame list) \<times> stream" where
  "getNextFrameSequence frameSequence s = sequence_loop frameSequence 0 [] s"

subsection \<open>What decoding leaves alone\<close>

text \<open>
  Two groups of fields: those no operation of the cursor writes, and those the decoder
  does not write.
\<close>

definition settings :: "stream \<Rightarrow> AVRational \<times> AVRational \<times> int \<times> int \<times> nat \<times> Frame \<times> (seek_request \<Rightarrow> read_result list option)" where
  "settings s =
     (time_base s, r_frame_rate s, m_startTimeStamp s, m_index s, m_bufferLength s,
      default_Frame s, demux_seek s)"

definition beside_decoder :: "stream \<Rightarrow> Frame list \<times> nat \<times> bool \<times> ext_call list" where
  "beside_decoder s = (m_bufferPing s, m_bufferPingHead s, m_frameSeekSupported s, ext_calls s)"

lemma settings_update [simp]:
  "settings (s\<lparr>pending := p\<rparr>) = settings s"
  "settings (s\<lparr>alloc_results := a\<rparr>) = settings s"
  "settings (s\<lparr>av_log := l\<rparr>) = settings s"
  "settings (s\<lparr>ext_calls := c\<rparr>) = settings s"
  "settings (s\<lparr>m_bufferPing := xs\<rparr>) = settings s"
  "settings (s\<lparr>m_bufferPong := ys\<rparr>) = settings s"
  "settings (s\<lparr>m_bufferPingHead := h\<rparr>) = settings s"
  "settings (s\<lparr>m_frameSeekSupported := b\<rparr>) = settings s"
  "settings (av_log_error msg s) = settings s"
  by (simp_all add: settings_def av_log_error_def)

lemma beside_decoder_update [simp]:
  "beside_decoder (s\<lparr>pending := p\<rparr>) = beside_decoder s"
  "beside_decoder (s\<lparr>alloc_results := a\<rparr>) = beside_decoder s"
  "beside_decoder (s\<lparr>av_log := l\<rparr>) = beside_decoder s"
  "beside_decoder (s\<lparr>m_bufferPong := ys\<rparr>) = beside_decoder s"
  "beside_decoder (av_log_error msg s) = beside_decoder s"
  by (simp_all add: beside_decoder_def av_log_error_def)

lemma av_log_error_fields [simp]:
  "pending (av_log_error msg s) = pending s"
  "m_bufferPing (av_log_error msg s) = m_bufferPing s"
  "m_bufferPong (av_log_error msg s) = m_bufferPong s"
  "m_bufferPingHead (av_log_error msg s) = m_bufferPingHead s"
  "m_frameSeekSupported (av_log_error msg s) = m_frameSeekSupported s"
  "ext_calls (av_log_error msg s) = ext_calls s"
  by (simp_all add: av_log_error_def)

lemma av_frame_alloc_keeps:
  "av_frame_alloc s = (ok, s1) \<Longrightarrow>
   settings s1 = settings s \<and> beside_decoder s1 = beside_decoder s \<and> pending s1 = pending s \<and>
   m_bufferPong s1 = m_bufferPong s"
  by (auto simp: av_frame_alloc_def split: list.splits)

lemma receive_frames_keeps:
  "receive_frames fs e n s = (d, n', s') \<Longrightarrow>
   settings s' = settings s \<and> beside_decoder s' = beside_decoder s \<and> pending s' = pending s"
proof (induction fs arbitrary: n s)
  case Nil
  then show ?case
    by (auto simp: Let_def split: if_splits prod.splits dest!: av_frame_alloc_keeps)
next
  case (Cons f fs)
  show ?case
  proof (cases "if n then av_frame_alloc s else (True, s)")
    case (Pair ok s1)
    then have k: "settings s1 = settings s \<and> beside_decoder s1 = beside_decoder s \<and> pending s1 = pending s"
      by (auto split: if_splits dest!: av_frame_alloc_keeps)
    show ?thesis
    proof (cases ok)
      case False
      with Pair Cons.prems k show ?thesis by auto
    next
      case True
      with Pair Cons.prems have
        "receive_frames fs e True
           (s1\<lparr>m_bufferPong := m_bufferPong s1 @
              [\<lparr>m_frame = Some f, m_timeStamp = timeStampToTime s1 (best_effort_timestamp f),
                m_frameNum = timeStampToFrame s1 (best_effort_timestamp f)\<rparr>]\<rparr>) = (d, n', s')"
        by (simp add: Let_def)
      from Cons.IH [OF this] k show ?thesis by simp
    qed
  qed
qed

lemma read_packets_keeps:
  "read_packets evs n s = (ok, s') \<Longrightarrow>
   settings s' = settings s \<and> beside_decoder s' = beside_decoder s"
proof (induction evs arbitrary: n s)
  case Nil
  then show ?case by auto
next
  case (Cons ev evs)
  show ?case
  proof (cases ev)
    case (Read_error e)
    with Cons.prems show ?thesis by (auto split: if_splits)
  next
    case (Read_packet packet reply)
    show ?thesis
    proof (cases "m_index s = stream_index packet")
      case False
      with Read_packet Cons.prems Cons.IH [of n s] show ?thesis by simp
    next
      case True
      show ?thesis
      proof (cases reply)
        case Send_error
        with True Read_packet Cons.prems show ?thesis by auto
      next
        case (Send_ok fs e)
        obtain d n' s1 where r: "receive_frames fs e n s = (d, n', s1)"
          by (cases "receive_frames fs e n s") auto
        note k = receive_frames_keeps [OF r]
        show ?thesis
        proof (cases d)
          case (Drain_return b)
          with True Read_packet Send_ok r k Cons.prems show ?thesis by auto
        next
          case Drain_break
          with True Read_packet Send_ok r Cons.prems
          have "read_packets evs n' s1 = (ok, s')" by simp
          from Cons.IH [OF this] k show ?thesis by simp
        qed
      qed
    qed
  qed
qed

lemma decodeNextBlock_keeps:
  "decodeNextBlock s = (ok, s') \<Longrightarrow>
   settings s' = settings s \<and> beside_decoder s' = beside_decoder s"
  by (auto simp: decodeNextBlock_def dest!: read_packets_keeps)

subsection \<open>Seeker\<close>

text \<open>
  The loops of the seeks end because every round either takes a buffered frame or makes the
  decoder consume a packet of the finitely many that are left.
\<close>

lemma read_packets_pending:
  "read_packets evs n s = (ok, s') \<Longrightarrow>
   length (pending s') \<le> length evs \<and>
   (evs \<noteq> [] \<longrightarrow> length (pending s') < length evs) \<and>
   (evs = [] \<longrightarrow> m_bufferPong s' = m_bufferPong s)"
proof (induction evs arbitrary: n s)
  case Nil
  then show ?case by auto
next
  case (Cons ev evs)
  show ?case
  proof (cases ev)
    case (Read_error e)
    with Cons.prems show ?thesis by (auto split: if_splits)
  next
    case (Read_packet packet reply)
    show ?thesis
    proof (cases "m_index s = stream_index packet")
      case False
      with Read_packet Cons.prems Cons.IH [of n s] show ?thesis by simp
    next
      case True
      show ?thesis
      proof (cases reply)
        case Send_error
        with True Read_packet Cons.prems show ?thesis by auto
      next
        case (Send_ok fs e)
        obtain d n' s1 where r: "receive_frames fs e n s = (d, n', s1)"
          by (cases "receive_frames fs e n s") auto
        show ?thesis
        proof (cases d)
          case (Drain_return b)
          with True Read_packet Send_ok r Cons.prems show ?thesis by auto
        next
          case Drain_break
          with True Read_packet Send_ok r Cons.prems
          have "read_packets evs n' s1 = (ok, s')" by simp
          from Cons.IH [OF this] show ?thesis by simp
        qed
      qed
    qed
  qed
qed

lemma decodeNextBlock_pending:
  "decodeNextBlock s = (ok, s') \<Longrightarrow>
   length (pending s') \<le> length (pending s) \<and>
   (m_bufferPong s' \<noteq> [] \<longrightarrow> length (pending s') < length (pending s))"
  by (auto simp: decodeNextBlock_def dest!: read_packets_pending)

lemma popFrame_fields [simp]:
  "pending (popFrame s) = pending s"
  "settings (popFrame s) = settings s"
  "m_frameSeekSupported (popFrame s) = m_frameSeekSupported s"
  "ext_calls (popFrame s) = ext_calls s"
  by (simp_all add: popFrame_def)

lemma peekNextFrame_progress:
  "peekNextFrame s = (Inr f, s') \<Longrightarrow>
   (s' = s \<and> m_bufferPingHead s < length (m_bufferPing s)) \<or>
   (length (pending s') < length (pending s) \<and> m_bufferPingHead s' < length (m_bufferPing s'))"
  by (auto simp: peekNextFrame_def Let_def split: if_splits prod.splits
      dest!: decodeNextBlock_pending)

lemma peekNextFrame_pending:
  "peekNextFrame s = (r, s') \<Longrightarrow> length (pending s') \<le> length (pending s)"
  by (auto simp: peekNextFrame_def Let_def split: if_splits prod.splits
      dest!: decodeNextBlock_pending)

lemma peekNextFrame_keeps:
  "peekNextFrame s = (r, s') \<Longrightarrow>
   settings s' = settings s \<and> m_frameSeekSupported s' = m_frameSeekSupported s \<and>
   ext_calls s' = ext_calls s"
  by (auto simp: peekNextFrame_def Let_def beside_decoder_def split: if_splits prod.splits
      dest!: decodeNextBlock_keeps)

lemma pop_after_peek_decreases:
  assumes "peekNextFrame s = (Inr f, s')"
  shows "length (pending (popFrame s')) < length (pending s) \<or>
         length (pending (popFrame s')) = length (pending s) \<and>
         length (m_bufferPing (popFrame s')) - m_bufferPingHead (popFrame s') <
         length (m_bufferPing s) - m_bufferPingHead s"
  using peekNextFrame_progress [OF assms] by (auto simp: popFrame_def)

text \<open>
  The loop \<^verbatim>\<open>while (true)\<close> that dumps all frames before the requested one; the source has
  it twice in \<^verbatim>\<open>seekFrameInternal\<close> (in-buffer hit and short forward decode) and, with the
  extra test on the frame's display time, once in \<^verbatim>\<open>seekInternal\<close>.
\<close>

function dumpFramesBefore :: "int \<Rightarrow> stream \<Rightarrow> bool \<times> stream" where
  "dumpFramesBefore frame s =
     (case peekNextFrame s of
        (Inl b, s1) \<Rightarrow> (False, s1)
      | (Inr f, s1) \<Rightarrow>
          if frame \<le> m_frameNum f then (True, s1)
          else dumpFramesBefore frame (popFrame s1))"
  by pat_completeness auto
termination
proof (relation "measures [\<lambda>(frame, s). length (pending s),
    \<lambda>(frame, s). length (m_bufferPing s) - m_bufferPingHead s]", goal_cases)
  case 1
  show ?case by simp
next
  case (2 frame s x1 s1 f)
  then have "peekNextFrame s = (Inr f, s1)" by simp
  from pop_after_peek_decreases [OF this] show ?case by auto
qed

function dumpFramesBeforeTime :: "int \<Rightarrow> stream \<Rightarrow> bool \<times> stream" where
  "dumpFramesBeforeTime timeStamp s =
     (case peekNextFrame s of
        (Inl b, s1) \<Rightarrow> (False, s1)
      | (Inr frame, s1) \<Rightarrow>
          if timeStamp \<le> m_timeStamp frame then (True, s1)
          else if m_timeStamp frame < timeStamp \<and>
                  timeStamp < wrap64 (m_timeStamp frame + getFrameTime s1) then (True, s1)
          else dumpFramesBeforeTime timeStamp (popFrame s1))"
  by pat_completeness auto
termination
proof (relation "measures [\<lambda>(timeStamp, s). length (pending s),
    \<lambda>(timeStamp, s). length (m_bufferPing s) - m_bufferPingHead s]", goal_cases)
  case 1
  show ?case by simp
next
  case (2 timeStamp s x1 s1 frame)
  then have "peekNextFrame s = (Inr frame, s1)" by simp
  from pop_after_peek_decreases [OF this] show ?case by auto
qed

text \<open>
  The two buffer checks of \<^verbatim>\<open>seekInternal\<close> and of \<^verbatim>\<open>seekFrameInternal\<close>: the target lies
  between the next unconsumed frame and the last frame of \<^verbatim>\<open>m_bufferPing\<close> (in-buffer hit),
  or beyond the last frame by no more than 25 frame times, respectively twice the buffer
  length in \<^verbatim>\<open>uint32_t\<close> arithmetic (short forward decode).
\<close>

definition time_in_buffer :: "int \<Rightarrow> stream \<Rightarrow> bool" where
  "time_in_buffer timeStamp s \<longleftrightarrow>
     0 < length (m_bufferPing s) \<and> m_bufferPingHead s < length (m_bufferPing s) \<and>
     m_timeStamp (m_bufferPing s ! m_bufferPingHead s) \<le> timeStamp \<and>
     timeStamp \<le> m_timeStamp (last (m_bufferPing s))"

definition time_in_forward_range :: "int \<Rightarrow> stream \<Rightarrow> bool" where
  "time_in_forward_range timeStamp s \<longleftrightarrow>
     0 < length (m_bufferPing s) \<and> m_timeStamp (last (m_bufferPing s)) < timeStamp \<and>
     timeStamp \<le> wrap64 (m_timeStamp (last (m_bufferPing s)) + frameToTime s 25)"

definition frame_in_buffer :: "int \<Rightarrow> stream \<Rightarrow> bool" where
  "frame_in_buffer frame s \<longleftrightarrow>
     0 < length (m_bufferPing s) \<and> m_bufferPingHead s < length (m_bufferPing s) \<and>
     m_frameNum (m_bufferPing s ! m_bufferPingHead s) \<le> frame \<and>
     frame \<le> m_frameNum (last (m_bufferPing s))"

definition frame_in_forward_range :: "int \<Rightarrow> stream \<Rightarrow> bool" where
  "frame_in_forward_range frame s \<longleftrightarrow>
     0 < length (m_bufferPing s) \<and> m_frameNum (last (m_bufferPing s)) < frame \<and>
     frame \<le> wrap64 (m_frameNum (last (m_bufferPing s)) +
                 (int (m_bufferLength s) * 2) mod 4294967296)"

text \<open>
  \<^verbatim>\<open>seekInternal\<close> and \<^verbatim>\<open>seekFrameInternal\<close>. The nested conditions of the source are
  written as one chain: in-buffer hit, short forward decode, then the part after the
  buffer checks. \<^verbatim>\<open>avcodec_flush_buffers\<close> and the demuxer seek are recorded in
  \<open>ext_calls\<close>; a demuxer seek that succeeds replaces the packets to come.
\<close>

lemma peek_emptied_consumes:
  assumes "peekNextFrame (s\<lparr>m_bufferPing := [], m_bufferPingHead := 0\<rparr>) = (Inr f, s')"
  shows "length (pending s') < length (pending s)"
  using peekNextFrame_progress [OF assms] by auto

function seekInternal :: "int \<Rightarrow> bool \<Rightarrow> stream \<Rightarrow> bool \<times> stream" where
  "seekInternal timeStamp recursed s =
     (if time_in_buffer timeStamp s then dumpFramesBeforeTime timeStamp s
      else if time_in_forward_range timeStamp s then
        (case peekNextFrame (s\<lparr>m_bufferPing := [], m_bufferPingHead := 0\<rparr>) of
           (Inl b, s1) \<Rightarrow> (False, s1)
         | (Inr f, s1) \<Rightarrow> seekInternal timeStamp True s1)
      else if recursed
      then (False, av_log_error ''Failed to seek to specified time stamp'' s)
      else
        let s1 = s\<lparr>ext_calls := ext_calls s @ [Flush_buffers]\<rparr>;
            localTimeStamp = wrap64 (timeToTimeStamp s1 timeStamp + m_startTimeStamp s1);
            request = Seek_file INT64_MIN localTimeStamp localTimeStamp 0;
            s2 = s1\<lparr>ext_calls := ext_calls s1 @ [Demux_seek request]\<rparr>
        in
          (case demux_seek s2 request of
             None \<Rightarrow> (False, av_log_error ''Failed seeking to specified time stamp'' s2)
           | Some evs \<Rightarrow>
               (case peekNextFrame (s2\<lparr>pending := evs, m_bufferPing := [], m_bufferPingHead := 0\<rparr>) of
                  (Inl b, s3) \<Rightarrow> (False, s3)
                | (Inr f, s3) \<Rightarrow> seekInternal timeStamp True s3)))"
  by pat_completeness auto
termination
proof (relation "measures [\<lambda>(timeStamp, recursed, s). if recursed then 0 else 1,
    \<lambda>(timeStamp, recursed, s). length (pending s)]", goal_cases)
  case 1
  show ?case by simp
next
  case (2 timeStamp recursed s x1 s1 f)
  then have "peekNextFrame (s\<lparr>m_bufferPing := [], m_bufferPingHead := 0\<rparr>) = (Inr f, s1)"
    by simp
  from peek_emptied_consumes [OF this] show ?case by auto
next
  case 3
  then show ?case by auto
qed

definition seek :: "int \<Rightarrow> stream \<Rightarrow> bool \<times> stream" where
  "seek timeStamp s = seekInternal timeStamp False s"

function seekFrameInternal :: "int \<Rightarrow> bool \<Rightarrow> stream \<Rightarrow> bool \<times> stream" where
  "seekFrameInternal frame recursed s =
     (if frame_in_buffer frame s then dumpFramesBefore frame s
      else if frame_in_forward_range frame s then dumpFramesBefore frame s
      else if recursed \<or> \<not> m_frameSeekSupported s then
        (if m_frameSeekSupported s
         then seek (frameToTime s frame)
                (av_log_error ''Failed to seek to specified frame (retrying using timestamp based seek)''
                   (s\<lparr>m_frameSeekSupported := False\<rparr>))
         else if recursed then (False, s)
         else seek (frameToTime s frame) s)
      else
        let s1 = s\<lparr>ext_calls := ext_calls s @ [Flush_buffers]\<rparr>;
            frameInternal = wrap64 (frame + timeStampToFrame s1 (m_startTimeStamp s1));
            request = Seek_file INT64_MIN frameInternal frameInternal AVSEEK_FLAG_FRAME;
            s2 = s1\<lparr>ext_calls := ext_calls s1 @ [Demux_seek request]\<rparr>
        in
          (case demux_seek s2 request of
             None \<Rightarrow>
               seek (frameToTime s2 frame)
                 (av_log_error ''Failed to seek to specified frame: (retrying using timestamp based seek)''
                    (s2\<lparr>m_frameSeekSupported := False\<rparr>))
           | Some evs \<Rightarrow>
               (case peekNextFrame (s2\<lparr>pending := evs, m_bufferPing := [], m_bufferPingHead := 0\<rparr>) of
                  (Inl b, s3) \<Rightarrow> (False, s3)
                | (Inr f, s3) \<Rightarrow> seekFrameInternal frame True s3)))"
  by pat_completeness auto
termination
  by (relation "measure (\<lambda>(frame, recursed, s). if recursed then 0 else 1)") auto

definition seekFrame :: "int \<Rightarrow> stream \<Rightarrow> bool \<times> stream" where
  "seekFrame frame s = seekFrameInternal frame False s"

text \<open>The equations of the four recursive functions are applied by hand.\<close>

declare dumpFramesBefore.simps [simp del]
declare dumpFramesBeforeTime.simps [simp del]
declare seekInternal.simps [simp del]
declare seekFrameInternal.simps [simp del]

subsection \<open>Prober\<close>

definition getCodecDelay :: "stream \<Rightarrow> int" where
  "getCodecDelay s = max ((if codec_cap_delay s then codec_delay s else 0) + has_b_frames s) 1"

text \<open>
  The packet loop of \<^verbatim>\<open>getStreamStartTime\<close>: \<open>n\<close> is the number of packets of the substream
  still to look at, the result is the lowest time stamp seen, or \<open>None\<close> when
  \<^verbatim>\<open>av_read_frame\<close> fails first (the function then returns 0 at once).
\<close>

fun start_packets :: "read_result list \<Rightarrow> int \<Rightarrow> nat \<Rightarrow> int \<Rightarrow> int option \<times> read_result list" where
  "start_packets evs index 0 startTimeStamp = (Some startTimeStamp, evs)"
| "start_packets [] index (Suc n) startTimeStamp = (None, [])"
| "start_packets (Read_error e # evs) index (Suc n) startTimeStamp = (None, evs)"
| "start_packets (Read_packet packet reply # evs) index (Suc n) startTimeStamp =
     (if stream_index packet = index then
        let pts1 = (if pts packet = AV_NOPTS_VALUE then dts packet else pts packet);
            startTimeStamp1 =
              (if pts1 \<noteq> AV_NOPTS_VALUE \<and>
                  (pts1 < startTimeStamp \<or> startTimeStamp = AV_NOPTS_VALUE)
               then pts1 else startTimeStamp)
        in start_packets evs index n startTimeStamp1
      else start_packets evs index (Suc n) startTimeStamp)"

text \<open>A demuxer seek whose result the source ignores.\<close>

definition av_seek_frame_ignored :: "int \<Rightarrow> int \<Rightarrow> stream \<Rightarrow> stream" where
  "av_seek_frame_ignored ts flags s =
     (let s1 = s\<lparr>ext_calls := ext_calls s @ [Demux_seek (Seek_frame ts flags)]\<rparr> in
      case demux_seek s1 (Seek_frame ts flags) of
        None \<Rightarrow> s1
      | Some evs \<Rightarrow> s1\<lparr>pending := evs\<rparr>)"

definition getStreamStartTime :: "stream \<Rightarrow> int \<times> stream" where
  "getStreamStartTime s =
     (if start_time s \<noteq> AV_NOPTS_VALUE then (start_time s, s)
      else
        let s1 = s\<lparr>ext_calls := ext_calls s @ [Flush_buffers]\<rparr>;
            startDts = (if first_dts s1 \<noteq> AV_NOPTS_VALUE then min 0 (first_dts s1) else 0);
            request = Seek_frame startDts AVSEEK_FLAG_BACKWARD;
            s2 = s1\<lparr>ext_calls := ext_calls s1 @ [Demux_seek request]\<rparr>
        in
          (case demux_seek s2 request of
             None \<Rightarrow> (0, av_log_error ''Failed to determine stream start time'' s2)
           | Some evs \<Rightarrow>
               (case start_packets evs (m_index s2) (nat (getCodecDelay s2)) AV_NOPTS_VALUE of
                  (None, rest) \<Rightarrow> (0, s2\<lparr>pending := rest\<rparr>)
                | (Some startTimeStamp, rest) \<Rightarrow>
                    (if startTimeStamp \<noteq> AV_NOPTS_VALUE then startTimeStamp else 0,
                     av_seek_frame_ignored startDts AVSEEK_FLAG_BACKWARD (s2\<lparr>pending := rest\<rparr>)))))"

text \<open>
  The scan of \<^verbatim>\<open>getStreamFrames\<close> and \<^verbatim>\<open>getStreamDuration\<close> (the same loop in both):
  \<^verbatim>\<open>while (av_read_frame(...) >= 0)\<close>, carrying \<^verbatim>\<open>foundTimeStamp\<close>.
\<close>

fun last_packets :: "read_result list \<Rightarrow> int \<Rightarrow> int \<Rightarrow> int \<times> read_result list" where
  "last_packets [] index foundTimeStamp = (foundTimeStamp, [])"
| "last_packets (Read_error e # evs) index foundTimeStamp = (foundTimeStamp, evs)"
| "last_packets (Read_packet packet reply # evs) index foundTimeStamp =
     (if stream_index packet = index then
        let found = dts packet;
            found1 = (if found \<noteq> AV_NOPTS_VALUE then pts packet else found)
        in last_packets evs index (if foundTimeStamp < found1 then found1 else foundTimeStamp)
      else last_packets evs index foundTimeStamp)"

text \<open>
  The fallback both probes share: flush, seek backward to \<^verbatim>\<open>frameToTimeStamp(1UL << 29UL)\<close>,
  scan to the end, seek back to the start. \<open>None\<close> when the first seek fails.
\<close>

definition scan_last_timestamp :: "string \<Rightarrow> stream \<Rightarrow> int option \<times> stream" where
  "scan_last_timestamp msg s =
     (let s1 = s\<lparr>ext_calls := ext_calls s @ [Flush_buffers]\<rparr>;
          request = Seek_frame (frameToTimeStamp s1 536870912) AVSEEK_FLAG_BACKWARD;
          s2 = s1\<lparr>ext_calls := ext_calls s1 @ [Demux_seek request]\<rparr>
      in
        (case demux_seek s2 request of
           None \<Rightarrow> (None, av_log_error msg s2)
         | Some evs \<Rightarrow>
             (case last_packets evs (m_index s2) (m_startTimeStamp s2) of
                (foundTimeStamp, rest) \<Rightarrow>
                  (Some foundTimeStamp, av_seek_frame_ignored 0 0 (s2\<lparr>pending := rest\<rparr>)))))"

definition getStreamFrames :: "stream \<Rightarrow> int \<times> stream" where
  "getStreamFrames s =
     (let frames = av_rescale_q (format_duration s) (r_frame_rate s)
                     (av_inv_q (av_make_q 1 AV_TIME_BASE)) in
      if 0 < format_duration s \<and> 1 < wrap64 \<bar>wrap64 (frames - nb_frames s)\<bar>
      then (wrap64 (frames - timeStampToFrame s (wrap64 (m_startTimeStamp s * 2))), s)
      else if 0 < nb_frames s
      then (wrap64 (nb_frames s - timeStampToFrame s (wrap64 (m_startTimeStamp s * 2))), s)
      else if 0 < stream_duration s
      then (timeStampToFrame s (stream_duration s), s)
      else
        (case scan_last_timestamp ''Failed to determine number of frames in stream'' s of
           (None, s1) \<Rightarrow> (0, s1)
         | (Some foundTimeStamp, s1) \<Rightarrow> (wrap64 (1 + timeStampToFrame s1 foundTimeStamp), s1)))"

definition getStreamDuration :: "stream \<Rightarrow> int \<times> stream" where
  "getStreamDuration s =
     (if 0 < format_duration s
      then (wrap64 (format_duration s - timeStampToTime s (wrap64 (m_startTimeStamp s * 2))), s)
      else if 0 < stream_duration s
      then (timeStampToTime s (stream_duration s), s)
      else
        (case scan_last_timestamp ''Failed to determine stream duration'' s of
           (None, s1) \<Rightarrow> (0, s1)
         | (Some foundTimeStamp, s1) \<Rightarrow>
             (wrap64 (timeStampToTime s1 foundTimeStamp + frameToTime s1 1), s1)))"

text \<open>
  The constructor. Its argument carries the format context, the codec context and the
  external world; the members are set here.

  Modelled from the spec: the default member initialisers are in FFFRStream.h, which is not
  under \<^verbatim>\<open>src/\<close>: \<open>ping_head\<close> starts at 0 and \<open>frame_seek_supported\<close> starts true.
\<close>

definition Stream :: "stream \<Rightarrow> int \<Rightarrow> nat \<Rightarrow> stream" where
  "Stream ctx streamID bufferLength =
     (let s0 = ctx\<lparr>m_bufferLength := bufferLength, m_index := streamID,
                 m_bufferPing := [], m_bufferPong := [], m_bufferPingHead := 0,
                 m_frameSeekSupported := True\<rparr>;
          (startTimeStamp, s1) = getStreamStartTime s0;
          s2 = s1\<lparr>m_startTimeStamp := startTimeStamp\<rparr>;
          (totalFrames, s3) = getStreamFrames s2;
          s4 = s3\<lparr>m_totalFrames := totalFrames\<rparr>;
          (totalDuration, s5) = getStreamDuration s4
      in s5\<lparr>m_totalDuration := totalDuration\<rparr>)"

subsection \<open>Geometry\<close>

text \<open>
  A \<^verbatim>\<open>double\<close> is the exact quotient it stands for (its rounding to 53 bits is not
  modelled), or not a finite number when the divisor is zero.
\<close>

datatype double = Double real | Not_finite

definition double_div :: "int \<Rightarrow> int \<Rightarrow> double" where
  "double_div a b = (if b = 0 then Not_finite else Double (real_of_int a / real_of_int b))"

definition av_q2d :: "AVRational \<Rightarrow> double" where
  "av_q2d a = double_div (num a) (den a)"

definition uint32 :: "int \<Rightarrow> int" where
  "uint32 x = x mod 4294967296"

definition getWidth :: "stream \<Rightarrow> int" where
  "getWidth s = uint32 (codecpar_width s)"

definition getHeight :: "stream \<Rightarrow> int" where
  "getHeight s = uint32 (codecpar_height s)"

definition getAspectRatio :: "stream \<Rightarrow> double" where
  "getAspectRatio s =
     (if num (display_aspect_ratio s) \<noteq> 0 then av_q2d (display_aspect_ratio s)
      else double_div (getWidth s) (getHeight s))"

text \<open>
  The accessors of \<^verbatim>\<open>Frame\<close> read through the native handle; on a default-constructed
  \<^verbatim>\<open>Frame\<close> that is a null pointer dereference, \<open>None\<close> here.
\<close>

definition Frame_getWidth :: "Frame \<Rightarrow> int option" where
  "Frame_getWidth f = map_option (\<lambda>a. uint32 (width a)) (m_frame f)"

definition Frame_getHeight :: "Frame \<Rightarrow> int option" where
  "Frame_getHeight f = map_option (\<lambda>a. uint32 (height a)) (m_frame f)"

definition Frame_getAspectRatio :: "Frame \<Rightarrow> double option" where
  "Frame_getAspectRatio f =
     (case (Frame_getWidth f, Frame_getHeight f) of
        (Some w, Some h) \<Rightarrow> Some (double_div w h)
      | _ \<Rightarrow> None)"

subsection \<open>The read operation as the specification words it\<close>

text \<open>
  \<open>get_next\<close> in the words of the specification: \<open>peek_next\<close> followed by, on a frame
  result, \<open>pop\<close>; the result is the one \<open>peek_next\<close> gave.
\<close>

definition get_next_spec :: "stream \<Rightarrow> (bool + Frame) \<times> stream" where
  "get_next_spec s =
     (let (r, s1) = peekNextFrame s in
      case r of
        Inl b \<Rightarrow> (r, s1)
      | Inr f \<Rightarrow> (r, popFrame s1))"

text \<open>
  The check of \<open>get_sequence\<close> in the words of the specification: \<open>start\<close> begins at 0 and
  becomes \<open>i + 1\<close> after each element \<open>i\<close>; an element below \<open>start\<close> is rejected.
\<close>

fun ascending_from :: "int \<Rightarrow> int list \<Rightarrow> bool" where
  "ascending_from start [] = True"
| "ascending_from start (i # indices) = (start \<le> i \<and> ascending_from (i + 1) indices)"

text \<open>
  The frames \<open>n\<close> calls of \<open>get_next\<close> in a row return, and the state they leave; \<open>None\<close>
  with the state of the failed call when one of them returns no frame.
\<close>

fun take_frames :: "nat \<Rightarrow> stream \<Rightarrow> Frame list option \<times> stream" where
  "take_frames 0 s = (Some [], s)"
| "take_frames (Suc n) s =
     (case getNextFrame s of
        (Inl b, s1) \<Rightarrow> (None, s1)
      | (Inr f, s1) \<Rightarrow>
          (case take_frames n s1 of
             (None, s2) \<Rightarrow> (None, s2)
           | (Some fs, s2) \<Rightarrow> (Some (f # fs), s2)))"

text \<open>The number of frames a checked index list consumes: one more than its last index.\<close>

definition frames_needed :: "int \<Rightarrow> int list \<Rightarrow> nat" where
  "frames_needed start indices = (if indices = [] then 0 else nat (last indices + 1 - start))"

subsection \<open>Quantities the properties name\<close>

text \<open>
  The demuxer seek \<^verbatim>\<open>seekFrameInternal\<close> issues for a frame, and the test for a
  frame-flagged demuxer seek among the recorded calls.
\<close>

definition frame_seek_request :: "int \<Rightarrow> stream \<Rightarrow> seek_request" where
  "frame_seek_request frame s =
     Seek_file INT64_MIN (wrap64 (frame + timeStampToFrame s (m_startTimeStamp s)))
       (wrap64 (frame + timeStampToFrame s (m_startTimeStamp s))) AVSEEK_FLAG_FRAME"

fun is_frame_seek :: "ext_call \<Rightarrow> bool" where
  "is_frame_seek (Demux_seek (Seek_file min_ts ts max_ts flags)) = (flags = AVSEEK_FLAG_FRAME)"
| "is_frame_seek c = False"

text \<open>
  The frame count \<^verbatim>\<open>getStreamFrames\<close> derives from the container's duration, and the
  correction it subtracts.
\<close>

definition duration_frames :: "stream \<Rightarrow> int" where
  "duration_frames s =
     av_rescale_q (format_duration s) (r_frame_rate s) (av_inv_q (av_make_q 1 AV_TIME_BASE))"

definition start_correction :: "stream \<Rightarrow> int" where
  "start_correction s = timeStampToFrame s (wrap64 (m_startTimeStamp s * 2))"

subsection \<open>Example streams\<close>

text \<open>
  A 25 fps substream with a millisecond time base: the packet of frame \<open>k\<close> has time stamp
  \<open>40 * k\<close> and decodes to one 720x576 frame.
\<close>

definition example_packet :: "int \<Rightarrow> read_result" where
  "example_packet t =
     Read_packet \<lparr>stream_index = 0, pts = t, dts = t\<rparr>
       (Send_ok [\<lparr>width = 720, height = 576, best_effort_timestamp = t\<rparr>] AVERROR_EAGAIN)"

definition example_frame :: "int \<Rightarrow> Frame" where
  "example_frame k =
     \<lparr>m_frame = Some \<lparr>width = 720, height = 576, best_effort_timestamp = 40 * k\<rparr>,
      m_timeStamp = 40000 * k, m_frameNum = k\<rparr>"

definition example_stream :: stream where
  "example_stream =
     \<lparr>time_base = \<lparr>num = 1, den = 1000\<rparr>,
      r_frame_rate = \<lparr>num = 25, den = 1\<rparr>,
      display_aspect_ratio = \<lparr>num = 16, den = 9\<rparr>,
      codecpar_width = 720,
      codecpar_height = 576,
      format_duration = 0,
      start_time = 0,
      first_dts = 0,
      nb_frames = 0,
      stream_duration = 0,
      codec_cap_delay = False,
      codec_delay = 0,
      has_b_frames = 0,
      pending = [],
      demux_seek = (\<lambda>r. None),
      alloc_results = [],
      ext_calls = [],
      av_log = [],
      default_Frame = \<lparr>m_frame = None, m_timeStamp = 0, m_frameNum = 0\<rparr>,
      m_bufferLength = 2,
      m_index = 0,
      m_bufferPing = [],
      m_bufferPong = [],
      m_bufferPingHead = 0,
      m_startTimeStamp = 0,
      m_totalFrames = 0,
      m_totalDuration = 0,
      m_frameSeekSupported = True\<rparr>"

text \<open>
  Example demuxers. The packets of the first five frames; a demuxer that rejects every
  frame-flagged seek and answers every other seek with the packets from the start of the
  file; and a stream, latched already, that has buffered three frames of which the second
  is stamped one millisecond late.
\<close>

definition example_packets :: "read_result list" where
  "example_packets =
     [example_packet 0, example_packet 40, example_packet 80, example_packet 120, example_packet 160]"

definition example_demuxer :: "seek_request \<Rightarrow> read_result list option" where
  "example_demuxer request =
     (case request of
        Seek_file min_ts ts max_ts flags \<Rightarrow>
          if flags = AVSEEK_FLAG_FRAME then None else Some example_packets
      | Seek_frame ts flags \<Rightarrow> Some example_packets)"

definition jitter_stream :: stream where
  "jitter_stream =
     snd (peekNextFrame (example_stream\<lparr>m_bufferLength := 3, m_frameSeekSupported := False,
       pending := [example_packet 0, example_packet 41, example_packet 80]\<rparr>))"

section \<open>Properties\<close>

subsection \<open>Peek and pop\<close>

lemma peekNextFrame_Inl: "peekNextFrame s = (Inl b, s1) \<Longrightarrow> b = False"
  by (auto simp: peekNextFrame_def Let_def split: if_splits prod.splits)

lemma peekNextFrame_Inr_again:
  "peekNextFrame s = (Inr f, s1) \<Longrightarrow> peekNextFrame s1 = (Inr f, s1)"
  by (auto simp: peekNextFrame_def Let_def split: if_splits prod.splits)

lemma peekNextFrame_buffered:
  "m_bufferPingHead s < length (m_bufferPing s) \<Longrightarrow>
   peekNextFrame s = (Inr (m_bufferPing s ! m_bufferPingHead s), s)"
  by (simp add: peekNextFrame_def)

text \<open>
  C8: \<open>pop\<close> with \<open>ping_head < len(ping)\<close> releases the frame at \<open>ping[ping_head]\<close> (the slot
  then holds a fresh default frame, every other slot is as before) and increments
  \<open>ping_head\<close> by exactly 1; \<open>pop\<close> with \<open>ping_head = len(ping)\<close> changes nothing of the
  Stream but the log, which gets one message.
\<close>

theorem popFrame_effect:
  "(m_bufferPingHead s < length (m_bufferPing s) \<longrightarrow>
      popFrame s = s\<lparr>m_bufferPing := (m_bufferPing s)[m_bufferPingHead s := default_Frame s],
                      m_bufferPingHead := m_bufferPingHead s + 1\<rparr> \<and>
      m_bufferPingHead (popFrame s) = m_bufferPingHead s + 1 \<and>
      length (m_bufferPing (popFrame s)) = length (m_bufferPing s) \<and>
      m_bufferPing (popFrame s) ! m_bufferPingHead s = default_Frame s \<and>
      (\<forall>i. i \<noteq> m_bufferPingHead s \<longrightarrow> m_bufferPing (popFrame s) ! i = m_bufferPing s ! i)) \<and>
   (m_bufferPingHead s = length (m_bufferPing s) \<longrightarrow>
      popFrame s = s\<lparr>av_log := av_log s @ [''No more frames to pop'']\<rparr>)"
  by (simp add: popFrame_def av_log_error_def)

theorem popFrame_effect_witness:
  "m_bufferPingHead (example_stream\<lparr>m_bufferPing := [example_frame 0, example_frame 1],
       m_bufferPingHead := 1\<rparr>) < length [example_frame 0, example_frame 1] \<and>
   popFrame (example_stream\<lparr>m_bufferPing := [example_frame 0, example_frame 1],
       m_bufferPingHead := 1\<rparr>) =
     example_stream\<lparr>m_bufferPing := [example_frame 0, default_Frame example_stream],
       m_bufferPingHead := 2\<rparr> \<and>
   popFrame (example_stream\<lparr>m_bufferPing := [example_frame 0, example_frame 1],
       m_bufferPingHead := 2\<rparr>) =
     example_stream\<lparr>m_bufferPing := [example_frame 0, example_frame 1],
       m_bufferPingHead := 2, av_log := [''No more frames to pop'']\<rparr>"
  using popFrame_effect [of "example_stream\<lparr>m_bufferPing := [example_frame 0, example_frame 1],
       m_bufferPingHead := 1\<rparr>"]
    popFrame_effect [of "example_stream\<lparr>m_bufferPing := [example_frame 0, example_frame 1],
       m_bufferPingHead := 2\<rparr>"]
  by (simp add: example_stream_def)

text \<open>
  C1: \<open>get_next\<close> is \<open>peek_next\<close> followed by, when \<open>peek_next\<close> returns a frame, \<open>pop\<close>: it
  equals the operation worded by the specification; the frame it returns is the frame of
  the \<open>peek_next\<close> in it, and of a \<open>peek_next\<close> called just before it; on a non-frame result
  of \<open>peek_next\<close> it returns that result in the state \<open>peek_next\<close> left, with no further
  change.
\<close>

theorem getNextFrame_is_peek_then_pop:
  "getNextFrame s = get_next_spec s \<and>
   (\<forall>f s1. peekNextFrame s = (Inr f, s1) \<longrightarrow>
      getNextFrame s = (Inr f, popFrame s1) \<and> fst (getNextFrame s1) = Inr f) \<and>
   (\<forall>b s1. peekNextFrame s = (Inl b, s1) \<longrightarrow> getNextFrame s = (Inl b, s1))"
proof (intro conjI allI impI)
  show "getNextFrame s = get_next_spec s"
    by (auto simp: getNextFrame_def get_next_spec_def split: prod.splits sum.splits
        dest: peekNextFrame_Inl)
next
  fix f s1 assume p: "peekNextFrame s = (Inr f, s1)"
  then show "getNextFrame s = (Inr f, popFrame s1)"
    by (simp add: getNextFrame_def)
  from peekNextFrame_Inr_again [OF p] show "fst (getNextFrame s1) = Inr f"
    by (simp add: getNextFrame_def)
next
  fix b s1 assume p: "peekNextFrame s = (Inl b, s1)"
  with peekNextFrame_Inl [OF p] show "getNextFrame s = (Inl b, s1)"
    by (simp add: getNextFrame_def)
qed

theorem getNextFrame_is_peek_then_pop_witness:
  "fst (peekNextFrame (example_stream\<lparr>pending := [example_packet 0, example_packet 40, example_packet 80]\<rparr>)) =
     Inr (example_frame 0) \<and>
   getNextFrame (example_stream\<lparr>pending := [example_packet 0, example_packet 40, example_packet 80]\<rparr>) =
     (Inr (example_frame 0),
      popFrame (snd (peekNextFrame (example_stream\<lparr>pending := [example_packet 0, example_packet 40, example_packet 80]\<rparr>)))) \<and>
   fst (getNextFrame (snd (peekNextFrame
     (example_stream\<lparr>pending := [example_packet 0, example_packet 40, example_packet 80]\<rparr>)))) =
     Inr (example_frame 0) \<and>
   m_bufferPingHead (snd (getNextFrame
     (example_stream\<lparr>pending := [example_packet 0, example_packet 40, example_packet 80]\<rparr>))) = 1 \<and>
   fst (peekNextFrame example_stream) = Inl False \<and>
   getNextFrame example_stream = (Inl False, snd (peekNextFrame example_stream))"
proof -
  let ?s = "example_stream\<lparr>pending := [example_packet 0, example_packet 40, example_packet 80]\<rparr>"
  have e: "fst (peekNextFrame ?s) = Inr (example_frame 0)"
    by code_simp
  then have p: "peekNextFrame ?s = (Inr (example_frame 0), snd (peekNextFrame ?s))"
    by (simp add: prod_eq_iff)
  have h: "m_bufferPingHead (snd (getNextFrame ?s)) = 1"
    by code_simp
  have e0: "fst (peekNextFrame example_stream) = Inl False"
    by code_simp
  then have p0: "peekNextFrame example_stream = (Inl False, snd (peekNextFrame example_stream))"
    by (simp add: prod_eq_iff)
  from getNextFrame_is_peek_then_pop [of ?s] p
  have "getNextFrame ?s = (Inr (example_frame 0), popFrame (snd (peekNextFrame ?s))) \<and>
        fst (getNextFrame (snd (peekNextFrame ?s))) = Inr (example_frame 0)"
    by blast
  moreover from getNextFrame_is_peek_then_pop [of example_stream] p0
  have "getNextFrame example_stream = (Inl False, snd (peekNextFrame example_stream))"
    by blast
  ultimately show ?thesis using e h e0 by simp
qed

text \<open>
  C2: two consecutive calls of \<open>peek_next\<close> return the same frame (so the same time stamp and
  frame number) and the second changes nothing; \<open>peek_next\<close> does not advance the cursor: with
  a frame left in \<open>ping\<close> it leaves the whole state as it is, and otherwise \<open>ping_head\<close> is as
  before unless the refill succeeded, swapped the buffers and set it to 0.
\<close>

theorem peekNextFrame_idempotent:
  "(\<forall>f s1. peekNextFrame s = (Inr f, s1) \<longrightarrow>
      peekNextFrame s1 = (Inr f, s1) \<and>
      m_timeStamp (projr (fst (peekNextFrame s1))) = m_timeStamp f \<and>
      m_frameNum (projr (fst (peekNextFrame s1))) = m_frameNum f) \<and>
   (m_bufferPingHead s < length (m_bufferPing s) \<longrightarrow> snd (peekNextFrame s) = s) \<and>
   (m_bufferPingHead (snd (peekNextFrame s)) = m_bufferPingHead s \<or>
    m_bufferPingHead s = length (m_bufferPing s) \<and> fst (decodeNextBlock s) \<and>
    m_bufferPingHead (snd (peekNextFrame s)) = 0 \<and>
    m_bufferPing (snd (peekNextFrame s)) = m_bufferPong (snd (decodeNextBlock s)) \<and>
    m_bufferPong (snd (peekNextFrame s)) = [])"
proof (intro conjI allI impI)
  fix f s1 assume p: "peekNextFrame s = (Inr f, s1)"
  from peekNextFrame_Inr_again [OF p]
  show "peekNextFrame s1 = (Inr f, s1)"
    and "m_timeStamp (projr (fst (peekNextFrame s1))) = m_timeStamp f"
    and "m_frameNum (projr (fst (peekNextFrame s1))) = m_frameNum f"
    by simp_all
next
  assume "m_bufferPingHead s < length (m_bufferPing s)"
  then show "snd (peekNextFrame s) = s"
    by (simp add: peekNextFrame_buffered)
next
  show "m_bufferPingHead (snd (peekNextFrame s)) = m_bufferPingHead s \<or>
    m_bufferPingHead s = length (m_bufferPing s) \<and> fst (decodeNextBlock s) \<and>
    m_bufferPingHead (snd (peekNextFrame s)) = 0 \<and>
    m_bufferPing (snd (peekNextFrame s)) = m_bufferPong (snd (decodeNextBlock s)) \<and>
    m_bufferPong (snd (peekNextFrame s)) = []"
    by (auto simp: peekNextFrame_def Let_def beside_decoder_def split: prod.splits
        dest!: decodeNextBlock_keeps)
qed

theorem peekNextFrame_idempotent_witness:
  "peekNextFrame (snd (peekNextFrame
      (example_stream\<lparr>pending := [example_packet 0, example_packet 40, example_packet 80]\<rparr>))) =
     (Inr (example_frame 0), snd (peekNextFrame
      (example_stream\<lparr>pending := [example_packet 0, example_packet 40, example_packet 80]\<rparr>))) \<and>
   m_bufferPing (snd (peekNextFrame
      (example_stream\<lparr>pending := [example_packet 0, example_packet 40, example_packet 80]\<rparr>))) =
     [example_frame 0, example_frame 1] \<and>
   m_bufferPingHead (snd (peekNextFrame
      (example_stream\<lparr>pending := [example_packet 0, example_packet 40, example_packet 80]\<rparr>))) = 0 \<and>
   peekNextFrame (example_stream\<lparr>m_bufferPing := [example_frame 0, example_frame 1],
      m_bufferPingHead := 1\<rparr>) =
     (Inr (example_frame 1), example_stream\<lparr>m_bufferPing := [example_frame 0, example_frame 1],
      m_bufferPingHead := 1\<rparr>)"
proof -
  let ?s = "example_stream\<lparr>pending := [example_packet 0, example_packet 40, example_packet 80]\<rparr>"
  let ?t = "example_stream\<lparr>m_bufferPing := [example_frame 0, example_frame 1],
      m_bufferPingHead := 1\<rparr>"
  have e: "fst (peekNextFrame ?s) = Inr (example_frame 0)"
    by code_simp
  then have p: "peekNextFrame ?s = (Inr (example_frame 0), snd (peekNextFrame ?s))"
    by (simp add: prod_eq_iff)
  have b: "m_bufferPing (snd (peekNextFrame ?s)) = [example_frame 0, example_frame 1]"
    "m_bufferPingHead (snd (peekNextFrame ?s)) = 0"
    by code_simp+
  have t: "m_bufferPingHead ?t < length (m_bufferPing ?t)"
    "fst (peekNextFrame ?t) = Inr (example_frame 1)"
    by code_simp+
  from peekNextFrame_idempotent [of ?s] p
  have "peekNextFrame (snd (peekNextFrame ?s)) = (Inr (example_frame 0), snd (peekNextFrame ?s))"
    by blast
  moreover from peekNextFrame_idempotent [of ?t] t(1)
  have "snd (peekNextFrame ?t) = ?t"
    by blast
  with t(2) have "peekNextFrame ?t = (Inr (example_frame 1), ?t)"
    by (simp add: prod_eq_iff)
  ultimately show ?thesis using b by simp
qed

text \<open>
  C10: the decode-error outcome (the refill failed) and the end-of-stream outcome (the refill
  left the buffer empty) of \<open>peek_next\<close> and \<open>get_next\<close> are the same returned value, the
  non-frame alternative holding \<open>false\<close>; no non-frame result holds anything else, so the
  returned value does not tell the two apart.
\<close>

theorem read_failure_is_false:
  "(m_bufferPingHead s = length (m_bufferPing s) \<and> \<not> fst (decodeNextBlock s) \<longrightarrow>
      fst (peekNextFrame s) = Inl False \<and> fst (getNextFrame s) = Inl False) \<and>
   (m_bufferPingHead s = length (m_bufferPing s) \<and> fst (decodeNextBlock s) \<and>
    m_bufferPong (snd (decodeNextBlock s)) = [] \<longrightarrow>
      fst (peekNextFrame s) = Inl False \<and> fst (getNextFrame s) = Inl False) \<and>
   (\<forall>b. fst (peekNextFrame s) = Inl b \<longrightarrow> b = False) \<and>
   (\<forall>b. fst (getNextFrame s) = Inl b \<longrightarrow> b = False)"
  by (auto simp: peekNextFrame_def getNextFrame_def Let_def split: prod.splits sum.splits if_splits)

theorem read_failure_is_false_witness:
  "\<not> fst (decodeNextBlock (example_stream\<lparr>pending := [Read_error AVERROR_OTHER]\<rparr>)) \<and>
   fst (peekNextFrame (example_stream\<lparr>pending := [Read_error AVERROR_OTHER]\<rparr>)) = Inl False \<and>
   fst (getNextFrame (example_stream\<lparr>pending := [Read_error AVERROR_OTHER]\<rparr>)) = Inl False \<and>
   fst (decodeNextBlock example_stream) \<and>
   m_bufferPong (snd (decodeNextBlock example_stream)) = [] \<and>
   fst (peekNextFrame example_stream) = Inl False \<and>
   fst (getNextFrame example_stream) = Inl False \<and>
   av_log (snd (peekNextFrame (example_stream\<lparr>pending := [Read_error AVERROR_OTHER]\<rparr>))) =
     [''Failed to retrieve new frame''] \<and>
   av_log (snd (peekNextFrame example_stream)) =
     [''Cannot get a new frame, End of file has been reached.'']"
proof -
  let ?s = "example_stream\<lparr>pending := [Read_error AVERROR_OTHER]\<rparr>"
  have d: "m_bufferPingHead ?s = length (m_bufferPing ?s)" "\<not> fst (decodeNextBlock ?s)"
    "m_bufferPingHead example_stream = length (m_bufferPing example_stream)"
    "fst (decodeNextBlock example_stream)"
    "m_bufferPong (snd (decodeNextBlock example_stream)) = []"
    by code_simp+
  have l: "av_log (snd (peekNextFrame ?s)) = [''Failed to retrieve new frame'']"
    "av_log (snd (peekNextFrame example_stream)) =
       [''Cannot get a new frame, End of file has been reached.'']"
    by code_simp+
  from read_failure_is_false [of ?s] d(1,2)
  have "fst (peekNextFrame ?s) = Inl False \<and> fst (getNextFrame ?s) = Inl False"
    by blast
  moreover from read_failure_is_false [of example_stream] d(3,4,5)
  have "fst (peekNextFrame example_stream) = Inl False \<and>
        fst (getNextFrame example_stream) = Inl False"
    by blast
  ultimately show ?thesis using d l by simp
qed

subsection \<open>Unit conversions\<close>

lemma wrap64_in_range: "INT64_MIN \<le> x \<Longrightarrow> x \<le> INT64_MAX \<Longrightarrow> wrap64 x = x"
  by (simp add: wrap64_def INT64_MIN_def INT64_MAX_def)

lemma wrap64_sub_add: "wrap64 (wrap64 (a + b) - a) = wrap64 b"
proof -
  have "(wrap64 (a + b) - a + 9223372036854775808) mod 18446744073709551616 =
        ((a + b + 9223372036854775808) mod 18446744073709551616 - a) mod 18446744073709551616"
    by (simp add: wrap64_def)
  also have "\<dots> = (a + b + 9223372036854775808 - a) mod 18446744073709551616"
    by (rule mod_diff_left_eq)
  finally show ?thesis
    by (simp add: wrap64_def)
qed

lemma round_div_inverse:
  fixes n B C :: int
  assumes C: "0 < C" and CB: "C \<le> B" and n: "0 \<le> n"
  shows "((n * B + C div 2) div C * C + B div 2) div B = n"
proof (cases "C = B")
  case True
  have "(n * B + B div 2) div B = n"
    using C True by (intro int_div_pos_eq [where r = "B div 2"]) (auto simp: algebra_simps)
  with True show ?thesis by simp
next
  case False
  with CB have lt: "C < B" by simp
  define x where "x = n * B + C div 2"
  define f where "f = x div C"
  have m: "0 \<le> x mod C" "x mod C < C" using C by simp_all
  have d: "x = f * C + x mod C" by (simp add: f_def)
  from m d have le: "f * C \<le> x" and gt: "x < f * C + C" by linarith+
  have r0: "0 \<le> f * C + B div 2 - n * B"
    using gt lt C unfolding x_def by presburger
  have r1: "f * C + B div 2 - n * B < B"
    using le lt C unfolding x_def by presburger
  have "(f * C + B div 2) div B = n"
    using r0 r1 by (intro int_div_pos_eq [where r = "f * C + B div 2 - n * B"]) (auto simp: algebra_simps)
  then show ?thesis by (simp add: f_def x_def)
qed

text \<open>
  C3 (as amended): when the numerators and denominators of \<open>time_base\<close> and \<open>frame_rate\<close>
  are positive, one frame lasts at least one tick of the time base
  (\<open>frame_rate * time_base \<le> 1\<close>) and the rescale inside \<open>frame_to_ts(n)\<close> stays within 64
  bits, then \<open>ts_to_frame(frame_to_ts(n)) = n\<close> for every \<open>n \<ge> 0\<close> and every \<open>start_ts\<close>.
\<close>

theorem frame_round_trip:
  assumes tb: "0 < num (time_base s)" "0 < den (time_base s)"
    and fr: "0 < num (r_frame_rate s)" "0 < den (r_frame_rate s)"
    and fine: "num (r_frame_rate s) * num (time_base s) \<le> den (r_frame_rate s) * den (time_base s)"
    and n: "0 \<le> n"
    and fits: "av_rescale_q n (av_inv_q (r_frame_rate s)) (time_base s) \<noteq> INT64_MIN"
  shows "timeStampToFrame s (frameToTimeStamp s n) = n"
proof -
  define B where "B = den (r_frame_rate s) * den (time_base s)"
  define C where "C = num (r_frame_rate s) * num (time_base s)"
  define q where "q = (n * B + C div 2) div C"
  have B: "0 < B" and C: "0 < C" and CB: "C \<le> B"
    using tb fr fine by (simp_all add: B_def C_def)
  have "n * C \<le> n * B + C div 2"
    using n C CB by (simp add: mult_left_mono add_increasing2)
  then have "(n * C) div C \<le> q"
    unfolding q_def using C by (intro zdiv_mono1) simp_all
  with C have nq: "n \<le> q" by simp
  have there: "av_rescale_q n (av_inv_q (r_frame_rate s)) (time_base s) =
      (if INT64_MAX < q then INT64_MIN else q)"
    using n B C
    by (simp add: av_rescale_q_def av_rescale_rnd_def av_inv_q_def B_def C_def q_def Let_def
        mult.commute)
  with fits have q_max: "q \<le> INT64_MAX" and there': "av_rescale_q n (av_inv_q (r_frame_rate s)) (time_base s) = q"
    by (auto split: if_splits)
  from nq n have q0: "0 \<le> q" by simp
  then have wq: "wrap64 q = q"
    using q_max by (intro wrap64_in_range) (simp_all add: INT64_MIN_def)
  have "timeStampToFrame s (frameToTimeStamp s n) =
      av_rescale_q q (r_frame_rate s) (av_inv_q (time_base s))"
    by (simp add: timeStampToFrame_def frameToTimeStamp_def there' wrap64_sub_add wq)
  also have "\<dots> = av_rescale_rnd q C B"
    by (simp add: av_rescale_q_def av_inv_q_def B_def C_def mult.commute)
  also have "\<dots> = (if INT64_MAX < (q * C + B div 2) div B then INT64_MIN else (q * C + B div 2) div B)"
    using q0 B C by (simp add: av_rescale_rnd_def Let_def)
  also have "(q * C + B div 2) div B = n"
    unfolding q_def using C CB n by (rule round_div_inverse)
  finally show ?thesis
    using nq q_max by simp
qed

theorem frame_round_trip_witness:
  "0 < num (time_base (example_stream\<lparr>m_startTimeStamp := 1234\<rparr>)) \<and>
   0 < den (time_base (example_stream\<lparr>m_startTimeStamp := 1234\<rparr>)) \<and>
   0 < num (r_frame_rate (example_stream\<lparr>m_startTimeStamp := 1234\<rparr>)) \<and>
   0 < den (r_frame_rate (example_stream\<lparr>m_startTimeStamp := 1234\<rparr>)) \<and>
   num (r_frame_rate (example_stream\<lparr>m_startTimeStamp := 1234\<rparr>)) *
     num (time_base (example_stream\<lparr>m_startTimeStamp := 1234\<rparr>)) \<le>
   den (r_frame_rate (example_stream\<lparr>m_startTimeStamp := 1234\<rparr>)) *
     den (time_base (example_stream\<lparr>m_startTimeStamp := 1234\<rparr>)) \<and>
   frameToTimeStamp (example_stream\<lparr>m_startTimeStamp := 1234\<rparr>) 7 = 1514 \<and>
   timeStampToFrame (example_stream\<lparr>m_startTimeStamp := 1234\<rparr>)
     (frameToTimeStamp (example_stream\<lparr>m_startTimeStamp := 1234\<rparr>) 7) = 7"
proof -
  let ?s = "example_stream\<lparr>m_startTimeStamp := 1234\<rparr>"
  have h: "0 < num (time_base ?s)" "0 < den (time_base ?s)"
    "0 < num (r_frame_rate ?s)" "0 < den (r_frame_rate ?s)"
    "num (r_frame_rate ?s) * num (time_base ?s) \<le> den (r_frame_rate ?s) * den (time_base ?s)"
    "(0::int) \<le> 7"
    "av_rescale_q 7 (av_inv_q (r_frame_rate ?s)) (time_base ?s) \<noteq> INT64_MIN"
    "frameToTimeStamp ?s 7 = 1514"
    by code_simp+
  from frame_round_trip [OF h(1-7)] h show ?thesis by simp
qed

text \<open>
  The law fails where the time base is coarser than a frame: at 50 frames per second on a
  time base of 1/25 s, frame 1 is rescaled to tick 1 and tick 1 back to frame 2.
\<close>

theorem frame_round_trip_counterexample:
  "frameToTimeStamp
     (example_stream\<lparr>time_base := \<lparr>num = 1, den = 25\<rparr>, r_frame_rate := \<lparr>num = 50, den = 1\<rparr>\<rparr>) 1 = 1 \<and>
   timeStampToFrame
     (example_stream\<lparr>time_base := \<lparr>num = 1, den = 25\<rparr>, r_frame_rate := \<lparr>num = 50, den = 1\<rparr>\<rparr>)
     (frameToTimeStamp
        (example_stream\<lparr>time_base := \<lparr>num = 1, den = 25\<rparr>, r_frame_rate := \<lparr>num = 50, den = 1\<rparr>\<rparr>) 1) = 2 \<and>
   timeStampToFrame
     (example_stream\<lparr>time_base := \<lparr>num = 1, den = 25\<rparr>, r_frame_rate := \<lparr>num = 50, den = 1\<rparr>\<rparr>)
     (frameToTimeStamp
        (example_stream\<lparr>time_base := \<lparr>num = 1, den = 25\<rparr>, r_frame_rate := \<lparr>num = 50, den = 1\<rparr>\<rparr>) 1) \<noteq> 1"
  by code_simp

subsection \<open>The probes\<close>

lemma wrap64_abs: "\<bar>x\<bar> \<le> INT64_MAX \<Longrightarrow> wrap64 \<bar>wrap64 x\<bar> = \<bar>x\<bar>"
  by (simp add: wrap64_def INT64_MAX_def)

text \<open>
  C5 (as amended): with a positive container duration (and a difference of the two counts
  that fits in 64 bits), the probe returns the duration-derived frame count minus the
  correction \<open>ts_to_frame(2 * start_ts)\<close> only when that count differs from the substream's
  declared frame count by more than 1 frame; when the two match to within 1 frame it falls
  through to the substream's declared frame count, if positive, minus the same correction.
\<close>

theorem getStreamFrames_container_duration:
  assumes "0 < format_duration s"
    and "\<bar>duration_frames s - nb_frames s\<bar> \<le> INT64_MAX"
  shows "(1 < \<bar>duration_frames s - nb_frames s\<bar> \<longrightarrow>
            getStreamFrames s = (wrap64 (duration_frames s - start_correction s), s)) \<and>
         (\<bar>duration_frames s - nb_frames s\<bar> \<le> 1 \<and> 0 < nb_frames s \<longrightarrow>
            getStreamFrames s = (wrap64 (nb_frames s - start_correction s), s))"
  using assms wrap64_abs [of "duration_frames s - nb_frames s"]
  by (simp add: getStreamFrames_def duration_frames_def start_correction_def Let_def)

theorem getStreamFrames_container_duration_witness:
  "0 < format_duration (example_stream\<lparr>format_duration := 10000000, nb_frames := 251\<rparr>) \<and>
   duration_frames (example_stream\<lparr>format_duration := 10000000, nb_frames := 251\<rparr>) = 250 \<and>
   start_correction (example_stream\<lparr>format_duration := 10000000, nb_frames := 251\<rparr>) = 0 \<and>
   fst (getStreamFrames (example_stream\<lparr>format_duration := 10000000, nb_frames := 251\<rparr>)) = 251 \<and>
   0 < format_duration (example_stream\<lparr>format_duration := 10000000, nb_frames := 100\<rparr>) \<and>
   duration_frames (example_stream\<lparr>format_duration := 10000000, nb_frames := 100\<rparr>) = 250 \<and>
   fst (getStreamFrames (example_stream\<lparr>format_duration := 10000000, nb_frames := 100\<rparr>)) = 250"
proof -
  let ?s = "example_stream\<lparr>format_duration := 10000000, nb_frames := 251\<rparr>"
  let ?t = "example_stream\<lparr>format_duration := 10000000, nb_frames := 100\<rparr>"
  have s: "0 < format_duration ?s" "duration_frames ?s = 250" "nb_frames ?s = 251"
    "start_correction ?s = 0"
    by code_simp+
  have t: "0 < format_duration ?t" "duration_frames ?t = 250" "nb_frames ?t = 100"
    "start_correction ?t = 0"
    by code_simp+
  have "fst (getStreamFrames ?s) = 251"
    using getStreamFrames_container_duration [of ?s] s
    by (simp add: INT64_MAX_def wrap64_def)
  moreover have "fst (getStreamFrames ?t) = 250"
    using getStreamFrames_container_duration [of ?t] t
    by (simp add: INT64_MAX_def wrap64_def)
  ultimately show ?thesis using s t by simp
qed

text \<open>
  With the test read the other way round, a duration-derived count of 250 next to a
  declared count of 251 (within 1) would give 250, and next to a declared count of 100 would
  give 100. The code gives 251 and 250.
\<close>

theorem getStreamFrames_container_duration_counterexample:
  "0 < format_duration (example_stream\<lparr>format_duration := 10000000, nb_frames := 251\<rparr>) \<and>
   duration_frames (example_stream\<lparr>format_duration := 10000000, nb_frames := 251\<rparr>) = 250 \<and>
   nb_frames (example_stream\<lparr>format_duration := 10000000, nb_frames := 251\<rparr>) = 251 \<and>
   start_correction (example_stream\<lparr>format_duration := 10000000, nb_frames := 251\<rparr>) = 0 \<and>
   fst (getStreamFrames (example_stream\<lparr>format_duration := 10000000, nb_frames := 251\<rparr>)) \<noteq> 250 \<and>
   0 < format_duration (example_stream\<lparr>format_duration := 10000000, nb_frames := 100\<rparr>) \<and>
   duration_frames (example_stream\<lparr>format_duration := 10000000, nb_frames := 100\<rparr>) = 250 \<and>
   nb_frames (example_stream\<lparr>format_duration := 10000000, nb_frames := 100\<rparr>) = 100 \<and>
   start_correction (example_stream\<lparr>format_duration := 10000000, nb_frames := 100\<rparr>) = 0 \<and>
   fst (getStreamFrames (example_stream\<lparr>format_duration := 10000000, nb_frames := 100\<rparr>)) \<noteq> 100"
  by code_simp

text \<open>
  C6 (the code at the failing input): the fallback scans take \<^verbatim>\<open>pts\<close> when \<^verbatim>\<open>dts\<close> is set
  and the unset \<^verbatim>\<open>dts\<close> otherwise. A packet with \<^verbatim>\<open>dts = 80\<close> and no \<^verbatim>\<open>pts\<close>, and one with
  \<^verbatim>\<open>pts = 80\<close> and no \<^verbatim>\<open>dts\<close>, both leave the maximum at the start time stamp 0: the probes
  return 1 frame and 40000 microseconds, not \<open>1 + ts_to_frame(80) = 3\<close> and
  \<open>ts_to_time(80) + frame_to_time(1) = 120000\<close>. The start-time probe reads the same
  packets the other way: \<^verbatim>\<open>pts\<close>, or \<^verbatim>\<open>dts\<close> when \<^verbatim>\<open>pts\<close> is unset.
\<close>

theorem fallback_scan_drops_timestamp:
  "last_packets [Read_packet \<lparr>stream_index = 0, pts = AV_NOPTS_VALUE, dts = 80\<rparr> Send_error] 0 0 = (0, []) \<and>
   last_packets [Read_packet \<lparr>stream_index = 0, pts = 80, dts = AV_NOPTS_VALUE\<rparr> Send_error] 0 0 = (0, []) \<and>
   fst (getStreamFrames (example_stream\<lparr>demux_seek := (\<lambda>r.
      Some [Read_packet \<lparr>stream_index = 0, pts = AV_NOPTS_VALUE, dts = 80\<rparr> Send_error])\<rparr>)) = 1 \<and>
   fst (getStreamDuration (example_stream\<lparr>demux_seek := (\<lambda>r.
      Some [Read_packet \<lparr>stream_index = 0, pts = AV_NOPTS_VALUE, dts = 80\<rparr> Send_error])\<rparr>)) = 40000 \<and>
   fst (getStreamFrames (example_stream\<lparr>demux_seek := (\<lambda>r.
      Some [Read_packet \<lparr>stream_index = 0, pts = 80, dts = AV_NOPTS_VALUE\<rparr> Send_error])\<rparr>)) = 1 \<and>
   1 + timeStampToFrame example_stream 80 = 3 \<and>
   timeStampToTime example_stream 80 + frameToTime example_stream 1 = 120000 \<and>
   start_packets [Read_packet \<lparr>stream_index = 0, pts = AV_NOPTS_VALUE, dts = 80\<rparr> Send_error] 0 1
      AV_NOPTS_VALUE = (Some 80, []) \<and>
   start_packets [Read_packet \<lparr>stream_index = 0, pts = 80, dts = AV_NOPTS_VALUE\<rparr> Send_error] 0 1
      AV_NOPTS_VALUE = (Some 80, [])"
  by code_simp

subsection \<open>Sequences of frames\<close>

lemma take_frames_length: "take_frames n s = (Some fs, s') \<Longrightarrow> length fs = n"
  by (induction n arbitrary: s fs) (auto split: prod.splits sum.splits option.splits)

lemma take_frames_add:
  "take_frames (m + n) s =
     (case take_frames m s of
        (None, s1) \<Rightarrow> (None, s1)
      | (Some fs, s1) \<Rightarrow>
          (case take_frames n s1 of
             (None, s2) \<Rightarrow> (None, s2)
           | (Some gs, s2) \<Rightarrow> (Some (fs @ gs), s2)))"
  by (induction m arbitrary: s) (auto split: prod.splits sum.splits option.splits)

lemma skip_frames_take:
  "skip_frames n s =
     (case take_frames n s of
        (None, s1) \<Rightarrow> (False, s1)
      | (Some fs, s1) \<Rightarrow> (True, s1))"
  by (induction n arbitrary: s)
    (auto simp: getNextFrame_def split: prod.splits sum.splits option.splits)

lemma ascending_from_ge: "ascending_from start indices \<Longrightarrow> i \<in> set indices \<Longrightarrow> start \<le> i"
  by (induction indices arbitrary: start) fastforce+

lemma ascending_from_sorted:
  "ascending_from start indices \<longleftrightarrow> sorted_wrt (<) indices \<and> (\<forall>i\<in>set indices. start \<le> i)"
  by (induction indices arbitrary: start) fastforce+

lemma wrap64_succ: "INT64_MIN \<le> i \<Longrightarrow> i < INT64_MAX \<Longrightarrow> wrap64 (i + 1) = i + 1"
  by (simp add: wrap64_def INT64_MIN_def INT64_MAX_def)

lemma sequence_loop_rejects:
  assumes "\<forall>i\<in>set indices. INT64_MIN \<le> i \<and> i < INT64_MAX"
    and "\<not> ascending_from start indices"
  shows "fst (sequence_loop indices start ret s) = Inl False"
  using assms
proof (induction indices arbitrary: start ret s)
  case Nil
  then show ?case by simp
next
  case (Cons i indices)
  show ?case
  proof (cases "i < start")
    case True
    then show ?thesis by simp
  next
    case False
    with Cons.prems have rest: "\<not> ascending_from (i + 1) indices"
      and range: "\<forall>j\<in>set indices. INT64_MIN \<le> j \<and> j < INT64_MAX"
      and w: "wrap64 (i + 1) = i + 1"
      by (simp_all add: wrap64_succ)
    from Cons.IH [OF range rest] False w show ?thesis
      by (simp split: prod.splits bool.splits sum.splits)
  qed
qed

lemma frames_needed_Cons:
  assumes "start \<le> i" and "ascending_from (i + 1) indices"
  shows "frames_needed start (i # indices) =
         nat (i - start) + Suc (frames_needed (i + 1) indices)"
proof (cases "indices = []")
  case True
  with assms show ?thesis by (simp add: frames_needed_def)
next
  case False
  then have "last indices \<in> set indices" by simp
  from ascending_from_ge [OF assms(2) this] assms(1) False show ?thesis
    by (simp add: frames_needed_def)
qed

lemma sequence_loop_takes:
  assumes "\<forall>i\<in>set indices. INT64_MIN \<le> i \<and> i < INT64_MAX"
    and "ascending_from start indices"
  shows "sequence_loop indices start ret s =
     (case take_frames (frames_needed start indices) s of
        (None, s1) \<Rightarrow> (Inl False, s1)
      | (Some fs, s1) \<Rightarrow> (Inr (ret @ map (\<lambda>i. fs ! nat (i - start)) indices), s1))"
  using assms
proof (induction indices arbitrary: start ret s)
  case Nil
  then show ?case by (simp add: frames_needed_def)
next
  case (Cons i indices)
  from Cons.prems have le: "start \<le> i" and rest: "ascending_from (i + 1) indices"
    and range: "\<forall>j\<in>set indices. INT64_MIN \<le> j \<and> j < INT64_MAX"
    and w: "wrap64 (i + 1) = i + 1"
    by (simp_all add: wrap64_succ)
  note IH = Cons.IH [OF range rest]
  have total: "take_frames (frames_needed start (i # indices)) s =
     (case take_frames (nat (i - start)) s of
        (None, s1) \<Rightarrow> (None, s1)
      | (Some fs, s1) \<Rightarrow>
          (case take_frames (Suc (frames_needed (i + 1) indices)) s1 of
             (None, s2) \<Rightarrow> (None, s2)
           | (Some gs, s2) \<Rightarrow> (Some (fs @ gs), s2)))"
    by (simp only: frames_needed_Cons [OF le rest] take_frames_add)
  obtain r1 s1 where t1: "take_frames (nat (i - start)) s = (r1, s1)"
    by (cases "take_frames (nat (i - start)) s") auto
  show ?case
  proof (cases r1)
    case None
    with t1 le show ?thesis
      by (simp add: total skip_frames_take)
  next
    case (Some fs1)
    with t1 have len1: "length fs1 = nat (i - start)"
      by (simp add: take_frames_length)
    obtain r2 s2 where g: "getNextFrame s1 = (r2, s2)"
      by (cases "getNextFrame s1") auto
    show ?thesis
    proof (cases r2)
      case (Inl b)
      with t1 Some g le show ?thesis
        by (simp add: total skip_frames_take)
    next
      case (Inr f)
      obtain r3 s3 where t3: "take_frames (frames_needed (i + 1) indices) s2 = (r3, s3)"
        by (cases "take_frames (frames_needed (i + 1) indices) s2") auto
      show ?thesis
      proof (cases r3)
        case None
        with t1 Some g Inr t3 le w show ?thesis
          by (simp add: total skip_frames_take IH)
      next
        case (Some fs2) note fs2 = this
        have pick: "(fs1 @ f # fs2) ! nat (j - start) = fs2 ! nat (j - (i + 1))"
          if "j \<in> set indices" for j
        proof -
          from ascending_from_ge [OF rest that] le
          have "nat (j - start) = length fs1 + Suc (nat (j - (i + 1)))"
            by (simp add: len1)
          then show ?thesis by (simp add: nth_append)
        qed
        have here: "(fs1 @ f # fs2) ! nat (i - start) = f"
          by (simp add: len1 [symmetric])
        from t1 \<open>r1 = Some fs1\<close> g Inr t3 fs2 le w show ?thesis
          by (simp add: total skip_frames_take IH here pick cong: map_cong)
      qed
    qed
  qed
qed

text \<open>
  C7: for an index list of 64-bit values below \<^verbatim>\<open>INT64_MAX\<close>, \<open>get_sequence\<close> returns the
  error value whenever the list fails the check (some element is below the running
  \<open>start\<close>, which begins at 0 and becomes \<open>i + 1\<close> after each element \<open>i\<close>); the check is that
  the list is strictly ascending and has no negative index. For a list that passes, the
  result is, in order, one frame per index, each index a relative offset from the cursor
  position at the call: the frames at these offsets among the frames that successive
  \<open>get_next\<close> calls deliver (one more than the last index are consumed), or the error value
  when the stream cannot deliver that many.
\<close>

theorem getNextFrameSequence_relative:
  assumes "\<forall>i\<in>set indices. INT64_MIN \<le> i \<and> i < INT64_MAX"
  shows "(\<not> ascending_from 0 indices \<longrightarrow> fst (getNextFrameSequence indices s) = Inl False) \<and>
         (ascending_from 0 indices \<longrightarrow>
            getNextFrameSequence indices s =
              (case take_frames (frames_needed 0 indices) s of
                 (None, s1) \<Rightarrow> (Inl False, s1)
               | (Some fs, s1) \<Rightarrow> (Inr (map (\<lambda>i. fs ! nat i) indices), s1))) \<and>
         (ascending_from 0 indices \<longleftrightarrow>
            sorted_wrt (<) indices \<and> (\<forall>i\<in>set indices. 0 \<le> i))"
proof (intro conjI impI)
  assume "\<not> ascending_from 0 indices"
  from sequence_loop_rejects [OF assms this]
  show "fst (getNextFrameSequence indices s) = Inl False"
    by (simp add: getNextFrameSequence_def)
next
  assume "ascending_from 0 indices"
  from sequence_loop_takes [OF assms this, of "[]" s]
  show "getNextFrameSequence indices s =
      (case take_frames (frames_needed 0 indices) s of
         (None, s1) \<Rightarrow> (Inl False, s1)
       | (Some fs, s1) \<Rightarrow> (Inr (map (\<lambda>i. fs ! nat i) indices), s1))"
    by (simp add: getNextFrameSequence_def split: prod.splits option.splits)
next
  show "ascending_from 0 indices \<longleftrightarrow> sorted_wrt (<) indices \<and> (\<forall>i\<in>set indices. 0 \<le> i)"
    by (rule ascending_from_sorted)
qed

theorem getNextFrameSequence_relative_witness:
  "ascending_from 0 [0, 2] \<and>
   fst (take_frames (frames_needed 0 [0, 2])
     (example_stream\<lparr>pending := [example_packet 0, example_packet 40, example_packet 80]\<rparr>)) =
     Some [example_frame 0, example_frame 1, example_frame 2] \<and>
   fst (getNextFrameSequence [0, 2]
     (example_stream\<lparr>pending := [example_packet 0, example_packet 40, example_packet 80]\<rparr>)) =
     Inr [example_frame 0, example_frame 2] \<and>
   \<not> ascending_from 0 [2, 1] \<and>
   fst (getNextFrameSequence [2, 1]
     (example_stream\<lparr>pending := [example_packet 0, example_packet 40, example_packet 80]\<rparr>)) =
     Inl False \<and>
   \<not> ascending_from 0 [0, 0] \<and>
   fst (getNextFrameSequence [0, 0]
     (example_stream\<lparr>pending := [example_packet 0, example_packet 40, example_packet 80]\<rparr>)) =
     Inl False \<and>
   ascending_from 0 [0, 5] \<and>
   fst (getNextFrameSequence [0, 5]
     (example_stream\<lparr>pending := [example_packet 0, example_packet 40, example_packet 80]\<rparr>)) =
     Inl False"
proof -
  let ?s = "example_stream\<lparr>pending := [example_packet 0, example_packet 40, example_packet 80]\<rparr>"
  have r: "\<forall>i\<in>set [0, 2]. INT64_MIN \<le> i \<and> i < INT64_MAX"
    "\<forall>i\<in>set [2, 1]. INT64_MIN \<le> i \<and> i < INT64_MAX"
    "\<forall>i\<in>set [0, 0]. INT64_MIN \<le> i \<and> i < INT64_MAX"
    "\<forall>i\<in>set [0, 5]. INT64_MIN \<le> i \<and> i < INT64_MAX"
    by (simp_all add: INT64_MIN_def INT64_MAX_def)
  have a: "ascending_from 0 [0, 2]" "\<not> ascending_from 0 [2, 1]" "\<not> ascending_from 0 [0, 0]"
    "ascending_from 0 [0, 5]"
    by simp_all
  have t: "fst (take_frames (frames_needed 0 [0, 2]) ?s) =
      Some [example_frame 0, example_frame 1, example_frame 2]"
    "fst (take_frames (frames_needed 0 [0, 5]) ?s) = None"
    by code_simp+
  from getNextFrameSequence_relative [OF r(1), of ?s] a(1) t(1)
  have "fst (getNextFrameSequence [0, 2] ?s) = Inr [example_frame 0, example_frame 2]"
    by (simp split: prod.splits)
  moreover from getNextFrameSequence_relative [OF r(2), of ?s] a(2)
  have "fst (getNextFrameSequence [2, 1] ?s) = Inl False"
    by blast
  moreover from getNextFrameSequence_relative [OF r(3), of ?s] a(3)
  have "fst (getNextFrameSequence [0, 0] ?s) = Inl False"
    by blast
  moreover from getNextFrameSequence_relative [OF r(4), of ?s] a(4) t(2)
  have "fst (getNextFrameSequence [0, 5] ?s) = Inl False"
    by (simp split: prod.splits)
  ultimately show ?thesis using a t(1) by simp
qed

subsection \<open>The frame-seek latch\<close>

lemma timemap_settings:
  "settings s' = settings s \<Longrightarrow> frameToTime s' = frameToTime s"
  "settings s' = settings s \<Longrightarrow> timeStampToFrame s' = timeStampToFrame s"
  "settings s' = settings s \<Longrightarrow> timeToTimeStamp s' = timeToTimeStamp s"
  by (auto simp: settings_def frameToTime_def timeStampToFrame_def timeToTimeStamp_def fun_eq_iff)

lemma dumpFramesBefore_keeps:
  "dumpFramesBefore frame s = (ok, s') \<Longrightarrow>
   m_frameSeekSupported s' = m_frameSeekSupported s \<and> ext_calls s' = ext_calls s \<and>
   settings s' = settings s"
proof (induction frame s arbitrary: ok s' rule: dumpFramesBefore.induct)
  case (1 frame s)
  obtain r s1 where p: "peekNextFrame s = (r, s1)"
    by (cases "peekNextFrame s") auto
  note k = peekNextFrame_keeps [OF p]
  show ?case
  proof (cases r)
    case (Inl b)
    with "1.prems" p k show ?thesis
      by (simp add: dumpFramesBefore.simps [of frame s])
  next
    case (Inr f)
    show ?thesis
    proof (cases "frame \<le> m_frameNum f")
      case True
      with "1.prems" p k Inr show ?thesis
        by (simp add: dumpFramesBefore.simps [of frame s])
    next
      case False
      with "1.prems" p Inr have "dumpFramesBefore frame (popFrame s1) = (ok, s')"
        by (simp add: dumpFramesBefore.simps [of frame s])
      from "1.IH" [OF p [symmetric] Inr False this] k show ?thesis by simp
    qed
  qed
qed

lemma dumpFramesBeforeTime_keeps:
  "dumpFramesBeforeTime timeStamp s = (ok, s') \<Longrightarrow>
   m_frameSeekSupported s' = m_frameSeekSupported s \<and> ext_calls s' = ext_calls s \<and>
   settings s' = settings s"
proof (induction timeStamp s arbitrary: ok s' rule: dumpFramesBeforeTime.induct)
  case (1 timeStamp s)
  obtain r s1 where p: "peekNextFrame s = (r, s1)"
    by (cases "peekNextFrame s") auto
  note k = peekNextFrame_keeps [OF p]
  show ?case
  proof (cases r)
    case (Inl b)
    with "1.prems" p k show ?thesis
      by (simp add: dumpFramesBeforeTime.simps [of timeStamp s])
  next
    case (Inr f)
    show ?thesis
    proof (cases "timeStamp \<le> m_timeStamp f \<or>
        m_timeStamp f < timeStamp \<and> timeStamp < wrap64 (m_timeStamp f + getFrameTime s1)")
      case True
      with "1.prems" p k Inr show ?thesis
        by (auto simp: dumpFramesBeforeTime.simps [of timeStamp s] split: if_splits)
    next
      case False
      with "1.prems" p Inr have "dumpFramesBeforeTime timeStamp (popFrame s1) = (ok, s')"
        by (simp add: dumpFramesBeforeTime.simps [of timeStamp s])
      moreover from False have "\<not> timeStamp \<le> m_timeStamp f"
        and "\<not> (m_timeStamp f < timeStamp \<and> timeStamp < wrap64 (m_timeStamp f + getFrameTime s1))"
        by auto
      ultimately show ?thesis using "1.IH" [OF p [symmetric] Inr] k by simp
    qed
  qed
qed

lemma seekInternal_recursed:
  "seekInternal timeStamp True s =
     (if time_in_buffer timeStamp s then dumpFramesBeforeTime timeStamp s
      else if time_in_forward_range timeStamp s then
        (case peekNextFrame (s\<lparr>m_bufferPing := [], m_bufferPingHead := 0\<rparr>) of
           (Inl b, s1) \<Rightarrow> (False, s1)
         | (Inr f, s1) \<Rightarrow> seekInternal timeStamp True s1)
      else (False, av_log_error ''Failed to seek to specified time stamp'' s))"
  by (subst seekInternal.simps) (simp add: time_in_buffer_def time_in_forward_range_def)

lemma seekInternal_recursed_keeps:
  "seekInternal timeStamp True s = (ok, s') \<Longrightarrow>
   m_frameSeekSupported s' = m_frameSeekSupported s \<and> ext_calls s' = ext_calls s \<and>
   settings s' = settings s"
proof (induction "length (pending s)" arbitrary: s ok s' rule: less_induct)
  case less
  note run = less.prems [unfolded seekInternal_recursed [of timeStamp s]]
  show ?case
  proof (cases "time_in_buffer timeStamp s")
    case True
    with run show ?thesis by (simp add: dumpFramesBeforeTime_keeps)
  next
    case False note c1 = this
    show ?thesis
    proof (cases "time_in_forward_range timeStamp s")
      case False
      with c1 run show ?thesis by auto
    next
      case True
      obtain r s1 where p: "peekNextFrame (s\<lparr>m_bufferPing := [], m_bufferPingHead := 0\<rparr>) = (r, s1)"
        by (cases "peekNextFrame (s\<lparr>m_bufferPing := [], m_bufferPingHead := 0\<rparr>)") auto
      from peekNextFrame_keeps [OF p]
      have k: "m_frameSeekSupported s1 = m_frameSeekSupported s \<and> ext_calls s1 = ext_calls s \<and>
          settings s1 = settings s"
        by simp
      show ?thesis
      proof (cases r)
        case (Inl b)
        with c1 True run p k show ?thesis by auto
      next
        case (Inr f)
        with c1 True run p have again: "seekInternal timeStamp True s1 = (ok, s')" by simp
        from p Inr have "length (pending s1) < length (pending s)"
          by (auto dest: peek_emptied_consumes)
        from less.hyps [OF this again] k show ?thesis by simp
      qed
    qed
  qed
qed

lemma seekInternal_keeps:
  assumes "seekInternal timeStamp recursed s = (ok, s')"
  shows "m_frameSeekSupported s' = m_frameSeekSupported s \<and>
         filter is_frame_seek (ext_calls s') = filter is_frame_seek (ext_calls s) \<and>
         settings s' = settings s"
proof (cases recursed)
  case True
  with assms seekInternal_recursed_keeps [of timeStamp s ok s'] show ?thesis by simp
next
  case False
  with assms have run: "seekInternal timeStamp False s = (ok, s')" by simp
  let ?P = "\<lambda>s'. m_frameSeekSupported s' = m_frameSeekSupported s \<and>
         filter is_frame_seek (ext_calls s') = filter is_frame_seek (ext_calls s) \<and>
         settings s' = settings s"
  define s2 where "s2 = s\<lparr>ext_calls := ext_calls s @ [Flush_buffers,
     Demux_seek (Seek_file INT64_MIN (wrap64 (timeToTimeStamp s timeStamp + m_startTimeStamp s))
       (wrap64 (timeToTimeStamp s timeStamp + m_startTimeStamp s)) 0)]\<rparr>"
  have s2: "?P s2" "\<And>msg. ?P (av_log_error msg s2)"
    by (simp_all add: s2_def AVSEEK_FLAG_FRAME_def)
  have unfolded: "seekInternal timeStamp False s =
     (if time_in_buffer timeStamp s then dumpFramesBeforeTime timeStamp s
      else if time_in_forward_range timeStamp s then
        (case peekNextFrame (s\<lparr>m_bufferPing := [], m_bufferPingHead := 0\<rparr>) of
           (Inl b, s1) \<Rightarrow> (False, s1)
         | (Inr f, s1) \<Rightarrow> seekInternal timeStamp True s1)
      else
        (case demux_seek s (Seek_file INT64_MIN (wrap64 (timeToTimeStamp s timeStamp + m_startTimeStamp s))
                (wrap64 (timeToTimeStamp s timeStamp + m_startTimeStamp s)) 0) of
           None \<Rightarrow> (False, av_log_error ''Failed seeking to specified time stamp'' s2)
         | Some evs \<Rightarrow>
             (case peekNextFrame (s2\<lparr>pending := evs, m_bufferPing := [], m_bufferPingHead := 0\<rparr>) of
                (Inl b, s3) \<Rightarrow> (False, s3)
              | (Inr f, s3) \<Rightarrow> seekInternal timeStamp True s3)))"
    by (subst seekInternal.simps)
      (simp add: time_in_buffer_def time_in_forward_range_def s2_def Let_def timeToTimeStamp_def
        split: option.splits)
  note run' = run [unfolded unfolded]
  show ?thesis
  proof (cases "time_in_buffer timeStamp s")
    case True
    with run' show ?thesis by (auto dest: dumpFramesBeforeTime_keeps)
  next
    case False note c1 = this
    show ?thesis
    proof (cases "time_in_forward_range timeStamp s")
      case True
      obtain r s1 where p: "peekNextFrame (s\<lparr>m_bufferPing := [], m_bufferPingHead := 0\<rparr>) = (r, s1)"
        by (cases "peekNextFrame (s\<lparr>m_bufferPing := [], m_bufferPingHead := 0\<rparr>)") auto
      from peekNextFrame_keeps [OF p] have k: "?P s1" by simp
      show ?thesis
      proof (cases r)
        case (Inl b)
        with c1 True run' p k show ?thesis by auto
      next
        case (Inr f)
        with c1 True run' p have "seekInternal timeStamp True s1 = (ok, s')" by simp
        from seekInternal_recursed_keeps [OF this] k show ?thesis by simp
      qed
    next
      case False note c2 = this
      show ?thesis
      proof (cases "demux_seek s (Seek_file INT64_MIN (wrap64 (timeToTimeStamp s timeStamp + m_startTimeStamp s))
                (wrap64 (timeToTimeStamp s timeStamp + m_startTimeStamp s)) 0)")
        case None
        with c1 c2 run' s2(2) show ?thesis by auto
      next
        case (Some evs)
        obtain r s3 where p: "peekNextFrame (s2\<lparr>pending := evs, m_bufferPing := [], m_bufferPingHead := 0\<rparr>) = (r, s3)"
          by (cases "peekNextFrame (s2\<lparr>pending := evs, m_bufferPing := [], m_bufferPingHead := 0\<rparr>)") auto
        from peekNextFrame_keeps [OF p] s2(1) have k: "?P s3" by simp
        show ?thesis
        proof (cases r)
          case (Inl b)
          with c1 c2 Some run' p k show ?thesis by auto
        next
          case (Inr f)
          with c1 c2 Some run' p have "seekInternal timeStamp True s3 = (ok, s')" by simp
          from seekInternal_recursed_keeps [OF this] k show ?thesis by simp
        qed
      qed
    qed
  qed
qed

lemma seekFrameInternal_served:
  "frame_in_buffer frame s \<or> frame_in_forward_range frame s \<Longrightarrow>
   seekFrameInternal frame recursed s = dumpFramesBefore frame s"
  by (subst seekFrameInternal.simps)
    (auto simp: frame_in_buffer_def frame_in_forward_range_def)

lemma seekFrameInternal_latched:
  "\<not> frame_in_buffer frame s \<Longrightarrow> \<not> frame_in_forward_range frame s \<Longrightarrow>
   \<not> m_frameSeekSupported s \<Longrightarrow>
   seekFrameInternal frame False s = seek (frameToTime s frame) s"
  by (subst seekFrameInternal.simps)
    (auto simp: frame_in_buffer_def frame_in_forward_range_def)

lemma seekFrameInternal_recursed_miss:
  "\<not> frame_in_buffer frame s \<Longrightarrow> \<not> frame_in_forward_range frame s \<Longrightarrow>
   m_frameSeekSupported s \<Longrightarrow>
   seekFrameInternal frame True s =
     seek (frameToTime s frame)
       (av_log_error ''Failed to seek to specified frame (retrying using timestamp based seek)''
          (s\<lparr>m_frameSeekSupported := False\<rparr>))"
  by (subst seekFrameInternal.simps)
    (auto simp: frame_in_buffer_def frame_in_forward_range_def)

lemma seekFrameInternal_rejected:
  "\<not> frame_in_buffer frame s \<Longrightarrow> \<not> frame_in_forward_range frame s \<Longrightarrow>
   m_frameSeekSupported s \<Longrightarrow> demux_seek s (frame_seek_request frame s) = None \<Longrightarrow>
   seekFrameInternal frame False s =
     seek (frameToTime s frame)
       (av_log_error ''Failed to seek to specified frame: (retrying using timestamp based seek)''
          (s\<lparr>ext_calls := ext_calls s @ [Flush_buffers, Demux_seek (frame_seek_request frame s)],
             m_frameSeekSupported := False\<rparr>))"
  by (subst seekFrameInternal.simps)
    (auto simp: frame_in_buffer_def frame_in_forward_range_def frame_seek_request_def Let_def
      timeStampToFrame_def frameToTime_def)

lemma seekFrameInternal_accepted:
  "\<not> frame_in_buffer frame s \<Longrightarrow> \<not> frame_in_forward_range frame s \<Longrightarrow>
   m_frameSeekSupported s \<Longrightarrow> demux_seek s (frame_seek_request frame s) = Some evs \<Longrightarrow>
   seekFrameInternal frame False s =
     (case peekNextFrame
        (s\<lparr>ext_calls := ext_calls s @ [Flush_buffers, Demux_seek (frame_seek_request frame s)],
           pending := evs, m_bufferPing := [], m_bufferPingHead := 0\<rparr>) of
        (Inl b, s3) \<Rightarrow> (False, s3)
      | (Inr f, s3) \<Rightarrow> seekFrameInternal frame True s3)"
  by (subst seekFrameInternal.simps)
    (auto simp: frame_in_buffer_def frame_in_forward_range_def frame_seek_request_def Let_def
      timeStampToFrame_def frameToTime_def)

lemma seek_keeps:
  "m_frameSeekSupported (snd (seek timeStamp s)) = m_frameSeekSupported s"
  "filter is_frame_seek (ext_calls (snd (seek timeStamp s))) = filter is_frame_seek (ext_calls s)"
  using seekInternal_keeps [of timeStamp False s "fst (seek timeStamp s)" "snd (seek timeStamp s)"]
  by (simp_all add: seek_def)

lemma dumpFramesBefore_keeps':
  "m_frameSeekSupported (snd (dumpFramesBefore frame s)) = m_frameSeekSupported s"
  "ext_calls (snd (dumpFramesBefore frame s)) = ext_calls s"
  using dumpFramesBefore_keeps [of frame s "fst (dumpFramesBefore frame s)" "snd (dumpFramesBefore frame s)"]
  by simp_all

lemma seekFrame_latched:
  assumes "\<not> m_frameSeekSupported s"
  shows "\<not> m_frameSeekSupported (snd (seekFrame frame s))"
    and "filter is_frame_seek (ext_calls (snd (seekFrame frame s))) =
         filter is_frame_seek (ext_calls s)"
proof -
  show "\<not> m_frameSeekSupported (snd (seekFrame frame s))"
  proof (cases "frame_in_buffer frame s \<or> frame_in_forward_range frame s")
    case True
    with assms show ?thesis
      by (simp add: seekFrame_def seekFrameInternal_served dumpFramesBefore_keeps')
  next
    case False
    with assms show ?thesis
      by (simp add: seekFrame_def seekFrameInternal_latched seek_keeps)
  qed
  show "filter is_frame_seek (ext_calls (snd (seekFrame frame s))) =
         filter is_frame_seek (ext_calls s)"
  proof (cases "frame_in_buffer frame s \<or> frame_in_forward_range frame s")
    case True
    then show ?thesis
      by (simp add: seekFrame_def seekFrameInternal_served dumpFramesBefore_keeps')
  next
    case False
    with assms show ?thesis
      by (simp add: seekFrame_def seekFrameInternal_latched seek_keeps)
  qed
qed

lemma getNextFrame_keeps:
  "getNextFrame s = (r, s') \<Longrightarrow> m_frameSeekSupported s' = m_frameSeekSupported s"
  by (auto simp: getNextFrame_def split: prod.splits sum.splits dest!: peekNextFrame_keeps)

lemma skip_frames_keeps:
  "skip_frames n s = (ok, s') \<Longrightarrow> m_frameSeekSupported s' = m_frameSeekSupported s"
proof (induction n arbitrary: s)
  case 0
  then show ?case by simp
next
  case (Suc n)
  obtain r s1 where p: "peekNextFrame s = (r, s1)"
    by (cases "peekNextFrame s") auto
  note k = peekNextFrame_keeps [OF p]
  show ?case
  proof (cases r)
    case (Inl b)
    with Suc.prems p k show ?thesis by simp
  next
    case (Inr f)
    with Suc.prems p have "skip_frames n (popFrame s1) = (ok, s')" by simp
    from Suc.IH [OF this] k show ?thesis by simp
  qed
qed

lemma sequence_loop_keeps:
  "sequence_loop indices start ret s = (r, s') \<Longrightarrow>
   m_frameSeekSupported s' = m_frameSeekSupported s"
proof (induction indices arbitrary: start ret s)
  case Nil
  then show ?case by simp
next
  case (Cons i indices)
  show ?case
  proof (cases "i < start")
    case True
    with Cons.prems show ?thesis by auto
  next
    case False
    obtain ok s1 where sk: "skip_frames (nat (i - start)) s = (ok, s1)"
      by (cases "skip_frames (nat (i - start)) s") auto
    note k1 = skip_frames_keeps [OF sk]
    obtain r2 s2 where g: "getNextFrame s1 = (r2, s2)"
      by (cases "getNextFrame s1") auto
    note k2 = getNextFrame_keeps [OF g]
    show ?thesis
    proof (cases "ok \<and> \<not> isl r2")
      case False
      with \<open>\<not> i < start\<close> Cons.prems sk g k1 k2 show ?thesis
        by (cases ok; cases r2) auto
    next
      case True
      then obtain f where "r2 = Inr f" by (cases r2) auto
      with True \<open>\<not> i < start\<close> Cons.prems sk g
      have "sequence_loop indices (wrap64 (i + 1)) (ret @ [f]) s2 = (r, s')" by simp
      from Cons.IH [OF this] k1 k2 show ?thesis by simp
    qed
  qed
qed

lemma probes_keep:
  "m_frameSeekSupported (snd (getStreamStartTime s)) = m_frameSeekSupported s"
  "m_frameSeekSupported (snd (getStreamFrames s)) = m_frameSeekSupported s"
  "m_frameSeekSupported (snd (getStreamDuration s)) = m_frameSeekSupported s"
  by (simp_all add: getStreamStartTime_def getStreamFrames_def getStreamDuration_def
      scan_last_timestamp_def av_seek_frame_ignored_def Let_def
      split: option.splits prod.splits)

lemma Stream_starts_supported: "m_frameSeekSupported (Stream ctx streamID bufferLength)"
proof -
  define s0 where "s0 = ctx\<lparr>m_bufferLength := bufferLength, m_index := streamID,
                 m_bufferPing := [], m_bufferPong := [], m_bufferPingHead := 0,
                 m_frameSeekSupported := True\<rparr>"
  define s2 where "s2 = (snd (getStreamStartTime s0))\<lparr>m_startTimeStamp := fst (getStreamStartTime s0)\<rparr>"
  define s4 where "s4 = (snd (getStreamFrames s2))\<lparr>m_totalFrames := fst (getStreamFrames s2)\<rparr>"
  have "Stream ctx streamID bufferLength =
      (snd (getStreamDuration s4))\<lparr>m_totalDuration := fst (getStreamDuration s4)\<rparr>"
    by (simp add: Stream_def s0_def s2_def s4_def Let_def split_beta)
  moreover have "m_frameSeekSupported s0" by (simp add: s0_def)
  then have "m_frameSeekSupported s2" by (simp add: s2_def probes_keep)
  then have "m_frameSeekSupported s4" by (simp add: s4_def probes_keep)
  ultimately show ?thesis by (simp add: probes_keep)
qed

text \<open>
  C4 (as amended): \<open>frame_seek_supported\<close> starts true and is a one-way latch. It is set to
  false when a \<open>seek_frame\<close> that is not served from the buffered frames has its
  frame-flagged demuxer seek rejected, or when the recursed call finds the target neither
  in the buffer nor within the short forward range; each time the seek goes on as
  \<open>seek_time(frame_to_time(n))\<close>. No operation sets it back to true. Once it is false,
  \<open>seek_frame(n)\<close> never issues the frame-flagged demuxer seek: it is served from the
  buffered frames (in-buffer hit or short forward decode) when the target is there, and
  otherwise is \<open>seek_time(frame_to_time(n))\<close>.
\<close>

theorem frame_seek_latch:
  "m_frameSeekSupported (Stream ctx streamID bufferLength) \<and>
   (\<not> frame_in_buffer frame s \<and> \<not> frame_in_forward_range frame s \<and> m_frameSeekSupported s \<and>
    demux_seek s (frame_seek_request frame s) = None \<longrightarrow>
      seekFrame frame s =
        seek (frameToTime s frame)
          (av_log_error ''Failed to seek to specified frame: (retrying using timestamp based seek)''
             (s\<lparr>ext_calls := ext_calls s @ [Flush_buffers, Demux_seek (frame_seek_request frame s)],
                m_frameSeekSupported := False\<rparr>)) \<and>
      \<not> m_frameSeekSupported (snd (seekFrame frame s))) \<and>
   (\<not> frame_in_buffer frame s \<and> \<not> frame_in_forward_range frame s \<and> m_frameSeekSupported s \<longrightarrow>
      seekFrameInternal frame True s =
        seek (frameToTime s frame)
          (av_log_error ''Failed to seek to specified frame (retrying using timestamp based seek)''
             (s\<lparr>m_frameSeekSupported := False\<rparr>)) \<and>
      \<not> m_frameSeekSupported (snd (seekFrameInternal frame True s))) \<and>
   (\<not> frame_in_buffer frame s \<and> \<not> frame_in_forward_range frame s \<and> m_frameSeekSupported s \<and>
    demux_seek s (frame_seek_request frame s) = Some evs \<and>
    peekNextFrame
      (s\<lparr>ext_calls := ext_calls s @ [Flush_buffers, Demux_seek (frame_seek_request frame s)],
         pending := evs, m_bufferPing := [], m_bufferPingHead := 0\<rparr>) = (Inr f, s3) \<and>
    \<not> frame_in_buffer frame s3 \<and> \<not> frame_in_forward_range frame s3 \<longrightarrow>
      \<not> m_frameSeekSupported (snd (seekFrame frame s))) \<and>
   (\<not> m_frameSeekSupported s \<longrightarrow>
      \<not> m_frameSeekSupported (snd (peekNextFrame s)) \<and>
      \<not> m_frameSeekSupported (popFrame s) \<and>
      \<not> m_frameSeekSupported (snd (getNextFrame s)) \<and>
      \<not> m_frameSeekSupported (snd (getNextFrameSequence indices s)) \<and>
      \<not> m_frameSeekSupported (snd (seek timeStamp s)) \<and>
      \<not> m_frameSeekSupported (snd (seekFrame frame s)) \<and>
      filter is_frame_seek (ext_calls (snd (seekFrame frame s))) =
        filter is_frame_seek (ext_calls s) \<and>
      (if frame_in_buffer frame s \<or> frame_in_forward_range frame s
       then seekFrame frame s = dumpFramesBefore frame s
       else seekFrame frame s = seek (frameToTime s frame) s))"
proof (intro conjI impI)
  show "m_frameSeekSupported (Stream ctx streamID bufferLength)"
    by (rule Stream_starts_supported)
next
  assume a: "\<not> frame_in_buffer frame s \<and> \<not> frame_in_forward_range frame s \<and>
    m_frameSeekSupported s \<and> demux_seek s (frame_seek_request frame s) = None"
  then show r: "seekFrame frame s =
        seek (frameToTime s frame)
          (av_log_error ''Failed to seek to specified frame: (retrying using timestamp based seek)''
             (s\<lparr>ext_calls := ext_calls s @ [Flush_buffers, Demux_seek (frame_seek_request frame s)],
                m_frameSeekSupported := False\<rparr>))"
    by (simp add: seekFrame_def seekFrameInternal_rejected)
  show "\<not> m_frameSeekSupported (snd (seekFrame frame s))"
    by (simp add: r seek_keeps)
next
  assume a: "\<not> frame_in_buffer frame s \<and> \<not> frame_in_forward_range frame s \<and>
    m_frameSeekSupported s"
  then show r: "seekFrameInternal frame True s =
        seek (frameToTime s frame)
          (av_log_error ''Failed to seek to specified frame (retrying using timestamp based seek)''
             (s\<lparr>m_frameSeekSupported := False\<rparr>))"
    by (simp add: seekFrameInternal_recursed_miss)
  show "\<not> m_frameSeekSupported (snd (seekFrameInternal frame True s))"
    by (simp add: r seek_keeps)
next
  assume a: "\<not> frame_in_buffer frame s \<and> \<not> frame_in_forward_range frame s \<and>
    m_frameSeekSupported s \<and> demux_seek s (frame_seek_request frame s) = Some evs \<and>
    peekNextFrame
      (s\<lparr>ext_calls := ext_calls s @ [Flush_buffers, Demux_seek (frame_seek_request frame s)],
         pending := evs, m_bufferPing := [], m_bufferPingHead := 0\<rparr>) = (Inr f, s3) \<and>
    \<not> frame_in_buffer frame s3 \<and> \<not> frame_in_forward_range frame s3"
  then have p: "peekNextFrame
      (s\<lparr>ext_calls := ext_calls s @ [Flush_buffers, Demux_seek (frame_seek_request frame s)],
         pending := evs, m_bufferPing := [], m_bufferPingHead := 0\<rparr>) = (Inr f, s3)"
    by simp
  from peekNextFrame_keeps [OF p] a have s3: "m_frameSeekSupported s3" by simp
  from a p have "seekFrame frame s = seekFrameInternal frame True s3"
    by (simp add: seekFrame_def seekFrameInternal_accepted)
  with a s3 show "\<not> m_frameSeekSupported (snd (seekFrame frame s))"
    by (simp add: seekFrameInternal_recursed_miss seek_keeps)
next
  assume l: "\<not> m_frameSeekSupported s"
  show "\<not> m_frameSeekSupported (snd (peekNextFrame s))"
    using l peekNextFrame_keeps [of s "fst (peekNextFrame s)" "snd (peekNextFrame s)"] by simp
  show "\<not> m_frameSeekSupported (popFrame s)"
    using l by simp
  show "\<not> m_frameSeekSupported (snd (getNextFrame s))"
    using l getNextFrame_keeps [of s "fst (getNextFrame s)" "snd (getNextFrame s)"] by simp
  show "\<not> m_frameSeekSupported (snd (getNextFrameSequence indices s))"
    using l sequence_loop_keeps [of indices 0 "[]" s "fst (getNextFrameSequence indices s)"
        "snd (getNextFrameSequence indices s)"]
    by (simp add: getNextFrameSequence_def)
  show "\<not> m_frameSeekSupported (snd (seek timeStamp s))"
    using l by (simp add: seek_keeps)
  show "\<not> m_frameSeekSupported (snd (seekFrame frame s))"
    using l by (rule seekFrame_latched)
  show "filter is_frame_seek (ext_calls (snd (seekFrame frame s))) =
        filter is_frame_seek (ext_calls s)"
    using l by (rule seekFrame_latched)
  show "if frame_in_buffer frame s \<or> frame_in_forward_range frame s
       then seekFrame frame s = dumpFramesBefore frame s
       else seekFrame frame s = seek (frameToTime s frame) s"
    using l by (simp add: seekFrame_def seekFrameInternal_served seekFrameInternal_latched)
qed

theorem frame_seek_latch_witness:
  "m_frameSeekSupported (Stream example_stream 0 2) \<and>
   m_frameSeekSupported (example_stream\<lparr>demux_seek := example_demuxer\<rparr>) \<and>
   demux_seek (example_stream\<lparr>demux_seek := example_demuxer\<rparr>)
     (frame_seek_request 2 (example_stream\<lparr>demux_seek := example_demuxer\<rparr>)) = None \<and>
   fst (seekFrame 2 (example_stream\<lparr>demux_seek := example_demuxer\<rparr>)) \<and>
   fst (peekNextFrame (snd (seekFrame 2 (example_stream\<lparr>demux_seek := example_demuxer\<rparr>)))) =
     Inr (example_frame 2) \<and>
   \<not> m_frameSeekSupported (snd (seekFrame 2 (example_stream\<lparr>demux_seek := example_demuxer\<rparr>))) \<and>
   \<not> m_frameSeekSupported (snd (seekFrame 4
       (snd (seekFrame 2 (example_stream\<lparr>demux_seek := example_demuxer\<rparr>))))) \<and>
   filter is_frame_seek (ext_calls (snd (seekFrame 4
       (snd (seekFrame 2 (example_stream\<lparr>demux_seek := example_demuxer\<rparr>)))))) =
     [Demux_seek (frame_seek_request 2 (example_stream\<lparr>demux_seek := example_demuxer\<rparr>))] \<and>
   seekFrame 4 (snd (seekFrame 2 (example_stream\<lparr>demux_seek := example_demuxer\<rparr>))) =
     dumpFramesBefore 4 (snd (seekFrame 2 (example_stream\<lparr>demux_seek := example_demuxer\<rparr>))) \<and>
   seekFrame 0 (snd (seekFrame 2 (example_stream\<lparr>demux_seek := example_demuxer\<rparr>))) =
     seek (frameToTime (snd (seekFrame 2 (example_stream\<lparr>demux_seek := example_demuxer\<rparr>))) 0)
       (snd (seekFrame 2 (example_stream\<lparr>demux_seek := example_demuxer\<rparr>))) \<and>
   m_frameSeekSupported (example_stream\<lparr>demux_seek := (\<lambda>r. Some example_packets)\<rparr>) \<and>
   \<not> fst (seekFrame 100 (example_stream\<lparr>demux_seek := (\<lambda>r. Some example_packets)\<rparr>)) \<and>
   \<not> m_frameSeekSupported
       (snd (seekFrame 100 (example_stream\<lparr>demux_seek := (\<lambda>r. Some example_packets)\<rparr>)))"
proof -
  let ?s = "example_stream\<lparr>demux_seek := example_demuxer\<rparr>"
  let ?l = "snd (seekFrame 2 ?s)"
  let ?a = "example_stream\<lparr>demux_seek := (\<lambda>r. Some example_packets)\<rparr>"
  let ?primed = "?a\<lparr>ext_calls := ext_calls ?a @ [Flush_buffers, Demux_seek (frame_seek_request 100 ?a)],
         pending := example_packets, m_bufferPing := [], m_bufferPingHead := 0\<rparr>"
  have s: "\<not> frame_in_buffer 2 ?s" "\<not> frame_in_forward_range 2 ?s" "m_frameSeekSupported ?s"
    "demux_seek ?s (frame_seek_request 2 ?s) = None"
    by code_simp+
  have run: "fst (seekFrame 2 ?s)" "fst (peekNextFrame ?l) = Inr (example_frame 2)"
    by code_simp+
  have l: "frame_in_forward_range 4 ?l" "\<not> frame_in_buffer 0 ?l" "\<not> frame_in_forward_range 0 ?l"
    "filter is_frame_seek (ext_calls ?l) = [Demux_seek (frame_seek_request 2 ?s)]"
    by code_simp+
  have a: "\<not> frame_in_buffer 100 ?a" "\<not> frame_in_forward_range 100 ?a" "m_frameSeekSupported ?a"
    "demux_seek ?a (frame_seek_request 100 ?a) = Some example_packets"
    "fst (peekNextFrame ?primed) = Inr (example_frame 0)"
    "\<not> frame_in_buffer 100 (snd (peekNextFrame ?primed))"
    "\<not> frame_in_forward_range 100 (snd (peekNextFrame ?primed))"
    "\<not> fst (seekFrame 100 ?a)"
    by code_simp+
  from a(5) have p: "peekNextFrame ?primed = (Inr (example_frame 0), snd (peekNextFrame ?primed))"
    by (simp add: prod_eq_iff)
  have latched: "\<not> m_frameSeekSupported ?l"
    using frame_seek_latch [where s = ?s and frame = 2] s by blast
  have "m_frameSeekSupported (Stream example_stream 0 2)"
    using frame_seek_latch [where ctx = example_stream and streamID = 0 and bufferLength = 2]
    by blast
  moreover have "\<not> m_frameSeekSupported (snd (seekFrame 4 ?l)) \<and>
      filter is_frame_seek (ext_calls (snd (seekFrame 4 ?l))) = filter is_frame_seek (ext_calls ?l)"
    using frame_seek_latch [where s = ?l and frame = 4] latched by blast
  moreover have "if frame_in_buffer 4 ?l \<or> frame_in_forward_range 4 ?l
      then seekFrame 4 ?l = dumpFramesBefore 4 ?l
      else seekFrame 4 ?l = seek (frameToTime ?l 4) ?l"
    using frame_seek_latch [where s = ?l and frame = 4] latched by blast
  with l(1) have "seekFrame 4 ?l = dumpFramesBefore 4 ?l"
    by (simp only: simp_thms if_True)
  moreover have "if frame_in_buffer 0 ?l \<or> frame_in_forward_range 0 ?l
      then seekFrame 0 ?l = dumpFramesBefore 0 ?l
      else seekFrame 0 ?l = seek (frameToTime ?l 0) ?l"
    using frame_seek_latch [where s = ?l and frame = 0] latched by blast
  with l(2,3) have "seekFrame 0 ?l = seek (frameToTime ?l 0) ?l"
    by (simp only: simp_thms if_False)
  moreover have "\<not> m_frameSeekSupported (snd (seekFrame 100 ?a))"
    using frame_seek_latch [where s = ?a and frame = 100 and evs = example_packets
        and f = "example_frame 0" and ?s3.0 = "snd (peekNextFrame ?primed)"] a(1-4,6,7) p
    by blast
  ultimately show ?thesis using s run l(4) latched a(3,8) by (simp only: simp_thms)
qed

text \<open>
  With the latch down and the target among the buffered frames, \<open>seek_frame(2)\<close> does not
  perform \<open>seek_time(frame_to_time(2))\<close>: it walks the buffer to frame 2, stamped 80000,
  where the time seek to 80000 stops one frame earlier, at the frame stamped 41000.
\<close>

theorem frame_seek_latch_counterexample:
  "\<not> m_frameSeekSupported jitter_stream \<and>
   map m_frameNum (m_bufferPing jitter_stream) = [0, 1, 2] \<and>
   map m_timeStamp (m_bufferPing jitter_stream) = [0, 41000, 80000] \<and>
   frameToTime jitter_stream 2 = 80000 \<and>
   m_bufferPingHead (snd (seekFrame 2 jitter_stream)) = 2 \<and>
   m_bufferPingHead (snd (seek (frameToTime jitter_stream 2) jitter_stream)) = 1 \<and>
   seekFrame 2 jitter_stream \<noteq> seek (frameToTime jitter_stream 2) jitter_stream"
proof -
  have e: "\<not> m_frameSeekSupported jitter_stream"
    "map m_frameNum (m_bufferPing jitter_stream) = [0, 1, 2]"
    "map m_timeStamp (m_bufferPing jitter_stream) = [0, 41000, 80000]"
    "frameToTime jitter_stream 2 = 80000"
    "m_bufferPingHead (snd (seekFrame 2 jitter_stream)) = 2"
    "m_bufferPingHead (snd (seek (frameToTime jitter_stream 2) jitter_stream)) = 1"
    by code_simp+
  from e(5,6) have "seekFrame 2 jitter_stream \<noteq> seek (frameToTime jitter_stream 2) jitter_stream"
    by auto
  with e show ?thesis by simp
qed

subsection \<open>Aspect ratio\<close>

text \<open>
  C9 (the code at the failing input): the substream of the example declares a display
  aspect ratio of 16:9 and \<^verbatim>\<open>Stream::getAspectRatio\<close> returns it; the frames it decodes are
  720x576 and \<^verbatim>\<open>Frame::getAspectRatio\<close> returns 720/576 = 5/4 for them. The accessor of
  \<^verbatim>\<open>Frame\<close> is the quotient of the frame's own width and height whatever the container
  declares.
\<close>

theorem frame_aspect_ratio_is_width_by_height:
  "Frame_getAspectRatio f =
     (case m_frame f of
        None \<Rightarrow> None
      | Some a \<Rightarrow> Some (double_div (uint32 (width a)) (uint32 (height a)))) \<and>
   num (display_aspect_ratio example_stream) = 16 \<and>
   getAspectRatio example_stream = Double (16 / 9) \<and>
   fst (getNextFrame (example_stream\<lparr>pending := example_packets\<rparr>)) = Inr (example_frame 0) \<and>
   Frame_getAspectRatio (example_frame 0) = Some (Double (5 / 4)) \<and>
   Frame_getAspectRatio (example_frame 0) \<noteq> Some (getAspectRatio example_stream)"
proof -
  have g: "Frame_getAspectRatio f =
     (case m_frame f of
        None \<Rightarrow> None
      | Some a \<Rightarrow> Some (double_div (uint32 (width a)) (uint32 (height a))))"
    by (simp add: Frame_getAspectRatio_def Frame_getWidth_def Frame_getHeight_def
        split: option.splits)
  have e: "num (display_aspect_ratio example_stream) = 16"
    "getAspectRatio example_stream = Double (16 / 9)"
    "Frame_getAspectRatio (example_frame 0) = Some (Double (5 / 4))"
    by (simp_all add: example_stream_def example_frame_def getAspectRatio_def av_q2d_def
        double_div_def Frame_getAspectRatio_def Frame_getWidth_def Frame_getHeight_def uint32_def)
  have n: "fst (getNextFrame (example_stream\<lparr>pending := example_packets\<rparr>)) = Inr (example_frame 0)"
    by code_simp
  from g e n show ?thesis by simp
qed

subsection \<open>The buffer invariant\<close>

text \<open>
  Invariant I1 of the data model, \<open>ping_head \<le> len(ping)\<close>, holds after the constructor
  and is kept by every operation, so no reachable state has the head beyond the buffer.
\<close>

lemma I1_popFrame: "I1 s \<Longrightarrow> I1 (popFrame s)"
  by (auto simp: I1_def popFrame_def)

lemma I1_peekNextFrame: "peekNextFrame s = (r, s') \<Longrightarrow> I1 s \<Longrightarrow> I1 s'"
  by (auto simp: I1_def peekNextFrame_def Let_def beside_decoder_def split: if_splits prod.splits
      dest!: decodeNextBlock_keeps)

lemma I1_emptied [simp]: "I1 (s\<lparr>pending := evs, m_bufferPing := [], m_bufferPingHead := 0\<rparr>)"
  "I1 (s\<lparr>m_bufferPing := [], m_bufferPingHead := 0\<rparr>)"
  by (simp_all add: I1_def)

lemma I1_update [simp]:
  "I1 (av_log_error msg s) = I1 s"
  "I1 (s\<lparr>ext_calls := c\<rparr>) = I1 s"
  "I1 (s\<lparr>m_frameSeekSupported := b\<rparr>) = I1 s"
  "I1 (s\<lparr>pending := p\<rparr>) = I1 s"
  by (simp_all add: I1_def)

lemma I1_getNextFrame: "getNextFrame s = (r, s') \<Longrightarrow> I1 s \<Longrightarrow> I1 s'"
  by (auto simp: getNextFrame_def split: prod.splits sum.splits
      dest: I1_peekNextFrame intro: I1_popFrame)

lemma I1_dumpFramesBefore: "dumpFramesBefore frame s = (ok, s') \<Longrightarrow> I1 s \<Longrightarrow> I1 s'"
proof (induction frame s arbitrary: ok s' rule: dumpFramesBefore.induct)
  case (1 frame s)
  obtain r s1 where p: "peekNextFrame s = (r, s1)"
    by (cases "peekNextFrame s") auto
  from I1_peekNextFrame [OF p "1.prems"(2)] have k: "I1 s1" .
  show ?case
  proof (cases r)
    case (Inl b)
    with "1.prems" p k show ?thesis
      by (simp add: dumpFramesBefore.simps [of frame s])
  next
    case (Inr f)
    show ?thesis
    proof (cases "frame \<le> m_frameNum f")
      case True
      with "1.prems" p k Inr show ?thesis
        by (simp add: dumpFramesBefore.simps [of frame s])
    next
      case False
      with "1.prems" p Inr have "dumpFramesBefore frame (popFrame s1) = (ok, s')"
        by (simp add: dumpFramesBefore.simps [of frame s])
      from "1.IH" [OF p [symmetric] Inr False this I1_popFrame [OF k]] show ?thesis .
    qed
  qed
qed

lemma I1_dumpFramesBeforeTime:
  "dumpFramesBeforeTime timeStamp s = (ok, s') \<Longrightarrow> I1 s \<Longrightarrow> I1 s'"
proof (induction timeStamp s arbitrary: ok s' rule: dumpFramesBeforeTime.induct)
  case (1 timeStamp s)
  obtain r s1 where p: "peekNextFrame s = (r, s1)"
    by (cases "peekNextFrame s") auto
  from I1_peekNextFrame [OF p "1.prems"(2)] have k: "I1 s1" .
  show ?case
  proof (cases r)
    case (Inl b)
    with "1.prems" p k show ?thesis
      by (simp add: dumpFramesBeforeTime.simps [of timeStamp s])
  next
    case (Inr f)
    show ?thesis
    proof (cases "timeStamp \<le> m_timeStamp f \<or>
        m_timeStamp f < timeStamp \<and> timeStamp < wrap64 (m_timeStamp f + getFrameTime s1)")
      case True
      with "1.prems" p k Inr show ?thesis
        by (auto simp: dumpFramesBeforeTime.simps [of timeStamp s] split: if_splits)
    next
      case False
      with "1.prems" p Inr have run: "dumpFramesBeforeTime timeStamp (popFrame s1) = (ok, s')"
        by (simp add: dumpFramesBeforeTime.simps [of timeStamp s])
      from False have "\<not> timeStamp \<le> m_timeStamp f"
        and "\<not> (m_timeStamp f < timeStamp \<and> timeStamp < wrap64 (m_timeStamp f + getFrameTime s1))"
        by auto
      from "1.IH" [OF p [symmetric] Inr this run I1_popFrame [OF k]] show ?thesis .
    qed
  qed
qed

lemma I1_seekInternal_recursed: "seekInternal timeStamp True s = (ok, s') \<Longrightarrow> I1 s \<Longrightarrow> I1 s'"
proof (induction "length (pending s)" arbitrary: s ok s' rule: less_induct)
  case less
  note run = less.prems(1) [unfolded seekInternal_recursed [of timeStamp s]]
  show ?case
  proof (cases "time_in_buffer timeStamp s")
    case True
    with run less.prems(2) show ?thesis by (auto dest: I1_dumpFramesBeforeTime)
  next
    case False note c1 = this
    show ?thesis
    proof (cases "time_in_forward_range timeStamp s")
      case False
      with c1 run less.prems(2) show ?thesis by auto
    next
      case True
      obtain r s1 where p: "peekNextFrame (s\<lparr>m_bufferPing := [], m_bufferPingHead := 0\<rparr>) = (r, s1)"
        by (cases "peekNextFrame (s\<lparr>m_bufferPing := [], m_bufferPingHead := 0\<rparr>)") auto
      from I1_peekNextFrame [OF p] have k: "I1 s1" by simp
      show ?thesis
      proof (cases r)
        case (Inl b)
        with c1 True run p k show ?thesis by auto
      next
        case (Inr f)
        with c1 True run p have again: "seekInternal timeStamp True s1 = (ok, s')" by simp
        from p Inr have "length (pending s1) < length (pending s)"
          by (auto dest: peek_emptied_consumes)
        from less.hyps [OF this again k] show ?thesis .
      qed
    qed
  qed
qed

lemma I1_seekInternal:
  assumes "seekInternal timeStamp recursed s = (ok, s')" and "I1 s"
  shows "I1 s'"
proof (cases recursed)
  case True
  with assms show ?thesis by (auto dest: I1_seekInternal_recursed)
next
  case False
  with assms have run: "seekInternal timeStamp False s = (ok, s')" by simp
  show ?thesis
    using run assms(2)
    by (subst (asm) seekInternal.simps)
      (auto simp: Let_def split: if_splits option.splits prod.splits sum.splits
        dest: I1_dumpFramesBeforeTime I1_seekInternal_recursed
        dest!: I1_peekNextFrame)
qed

lemma I1_seek: "I1 s \<Longrightarrow> I1 (snd (seek timeStamp s))"
  using I1_seekInternal [of timeStamp False s "fst (seek timeStamp s)" "snd (seek timeStamp s)"]
  by (simp add: seek_def)

lemma I1_seekFrameInternal_recursed:
  "I1 s \<Longrightarrow> I1 (snd (seekFrameInternal frame True s))"
  using I1_dumpFramesBefore [of frame s "fst (dumpFramesBefore frame s)" "snd (dumpFramesBefore frame s)"]
  by (subst seekFrameInternal.simps) (auto simp: I1_seek)

lemma I1_seekFrame: "I1 s \<Longrightarrow> I1 (snd (seekFrame frame s))"
  unfolding seekFrame_def
  using I1_dumpFramesBefore [of frame s "fst (dumpFramesBefore frame s)" "snd (dumpFramesBefore frame s)"]
  by (subst seekFrameInternal.simps)
    (auto simp: Let_def I1_seek I1_seekFrameInternal_recursed split: option.splits prod.splits sum.splits
      dest!: I1_peekNextFrame)

lemma I1_skip_frames: "skip_frames n s = (ok, s') \<Longrightarrow> I1 s \<Longrightarrow> I1 s'"
proof (induction n arbitrary: s)
  case 0
  then show ?case by simp
next
  case (Suc n)
  obtain r s1 where p: "peekNextFrame s = (r, s1)"
    by (cases "peekNextFrame s") auto
  from I1_peekNextFrame [OF p Suc.prems(2)] have k: "I1 s1" .
  show ?case
  proof (cases r)
    case (Inl b)
    with Suc.prems p k show ?thesis by simp
  next
    case (Inr f)
    with Suc.prems p have "skip_frames n (popFrame s1) = (ok, s')" by simp
    from Suc.IH [OF this I1_popFrame [OF k]] show ?thesis .
  qed
qed

lemma I1_sequence_loop: "sequence_loop indices start ret s = (r, s') \<Longrightarrow> I1 s \<Longrightarrow> I1 s'"
proof (induction indices arbitrary: start ret s)
  case Nil
  then show ?case by simp
next
  case (Cons i indices)
  show ?case
  proof (cases "i < start")
    case True
    with Cons.prems show ?thesis by auto
  next
    case False
    obtain ok s1 where sk: "skip_frames (nat (i - start)) s = (ok, s1)"
      by (cases "skip_frames (nat (i - start)) s") auto
    from I1_skip_frames [OF sk Cons.prems(2)] have k1: "I1 s1" .
    obtain r2 s2 where g: "getNextFrame s1 = (r2, s2)"
      by (cases "getNextFrame s1") auto
    from I1_getNextFrame [OF g k1] have k2: "I1 s2" .
    show ?thesis
    proof (cases "ok \<and> \<not> isl r2")
      case False
      with \<open>\<not> i < start\<close> Cons.prems sk g k1 k2 show ?thesis
        by (cases ok; cases r2) auto
    next
      case True
      then obtain f where "r2 = Inr f" by (cases r2) auto
      with True \<open>\<not> i < start\<close> Cons.prems sk g
      have "sequence_loop indices (wrap64 (i + 1)) (ret @ [f]) s2 = (r, s')" by simp
      from Cons.IH [OF this k2] show ?thesis .
    qed
  qed
qed

lemma probes_keep_buffer:
  "I1 (snd (getStreamStartTime s)) = I1 s"
  "I1 (snd (getStreamFrames s)) = I1 s"
  "I1 (snd (getStreamDuration s)) = I1 s"
  by (simp_all add: getStreamStartTime_def getStreamFrames_def getStreamDuration_def
      scan_last_timestamp_def av_seek_frame_ignored_def Let_def I1_def
      split: option.splits prod.splits)

lemma I1_Stream: "I1 (Stream ctx streamID bufferLength)"
proof -
  define s0 where "s0 = ctx\<lparr>m_bufferLength := bufferLength, m_index := streamID,
                 m_bufferPing := [], m_bufferPong := [], m_bufferPingHead := 0,
                 m_frameSeekSupported := True\<rparr>"
  define s2 where "s2 = (snd (getStreamStartTime s0))\<lparr>m_startTimeStamp := fst (getStreamStartTime s0)\<rparr>"
  define s4 where "s4 = (snd (getStreamFrames s2))\<lparr>m_totalFrames := fst (getStreamFrames s2)\<rparr>"
  have "Stream ctx streamID bufferLength =
      (snd (getStreamDuration s4))\<lparr>m_totalDuration := fst (getStreamDuration s4)\<rparr>"
    by (simp add: Stream_def s0_def s2_def s4_def Let_def split_beta)
  moreover have "I1 s0" by (simp add: s0_def I1_def)
  then have "I1 s2" using probes_keep_buffer(1) [of s0] by (simp add: s2_def I1_def)
  then have "I1 s4" using probes_keep_buffer(2) [of s2] by (simp add: s4_def I1_def)
  then have "I1 (snd (getStreamDuration s4))" by (simp add: probes_keep_buffer)
  ultimately show ?thesis by (simp add: I1_def)
qed

text \<open>The invariant under every public operation.\<close>

lemma I1_invariant:
  assumes "I1 s"
  shows "I1 (snd (peekNextFrame s))" and "I1 (popFrame s)" and "I1 (snd (getNextFrame s))"
    and "I1 (snd (getNextFrameSequence indices s))" and "I1 (snd (seek timeStamp s))"
    and "I1 (snd (seekFrame frame s))"
proof -
  show "I1 (snd (peekNextFrame s))"
    using I1_peekNextFrame [of s "fst (peekNextFrame s)" "snd (peekNextFrame s)"] assms by simp
  show "I1 (popFrame s)"
    using assms by (rule I1_popFrame)
  show "I1 (snd (getNextFrame s))"
    using I1_getNextFrame [of s "fst (getNextFrame s)" "snd (getNextFrame s)"] assms by simp
  show "I1 (snd (getNextFrameSequence indices s))"
    using I1_sequence_loop [of indices 0 "[]" s "fst (getNextFrameSequence indices s)"
        "snd (getNextFrameSequence indices s)"] assms
    by (simp add: getNextFrameSequence_def)
  show "I1 (snd (seek timeStamp s))"
    using assms by (rule I1_seek)
  show "I1 (snd (seekFrame frame s))"
    using assms by (rule I1_seekFrame)
qed

end
